theory Spec2Isabelle
  imports Main "HOL-Library.Word" "HOL-Library.AList" "HOL-Library.Sublist"
    "HOL-Library.Char_ord" "HOL-Library.List_Lexorder"
begin

section \<open>Byte payloads and their aggregation\<close>

text \<open>
  Serialized payloads are Python \<^verbatim>\<open>bytes\<close> objects: lists of 8-bit values.
  Python integers are unbounded, so positions and range bounds are \<^typ>\<open>int\<close>; the
  range of an empty payload at position 0 is \<open>(0, -1)\<close>, which a natural number could
  not hold.
\<close>

type_synonym bytes = "8 word list"

text \<open>
  \<^verbatim>\<open>
  @staticmethod
  def agg_data(data_strs):
      ranges = []
      pos = 0
      for datum in data_strs:
          l = len(datum)
          ranges.append((pos, pos + l -1))
          pos += l
      return b"".join(data_strs), ranges
  \<close>
  The loop is a recursion over the remaining payloads that carries \<open>ranges\<close> and
  \<open>pos\<close>.
\<close>

fun agg_loop :: "bytes list \<Rightarrow> (int \<times> int) list \<Rightarrow> int \<Rightarrow> (int \<times> int) list" where
  "agg_loop [] ranges pos = ranges"
| "agg_loop (datum # rest) ranges pos =
     (let l = int (length datum)
      in agg_loop rest (ranges @ [(pos, pos + l - 1)]) (pos + l))"

definition agg_data :: "bytes list \<Rightarrow> bytes \<times> (int \<times> int) list" where
  "agg_data data_strs = (concat data_strs, agg_loop data_strs [] 0)"

text \<open>
  Python's slice \<^verbatim>\<open>xs[a:b]\<close> (step 1): a negative bound counts from the end, and both
  bounds are clamped to \<open>0 .. len(xs)\<close>; an empty or inverted window gives the empty
  sequence.
\<close>

definition py_slice :: "'a list \<Rightarrow> int \<Rightarrow> int \<Rightarrow> 'a list" where
  "py_slice xs a b =
     (let n = int (length xs);
          lo = (if a < 0 then max 0 (a + n) else min a n);
          hi = (if b < 0 then max 0 (b + n) else min b n)
      in take (nat (hi - lo)) (drop (nat lo) xs))"

text \<open>
  The position at which payload \<open>i\<close> starts in the joined blob: the total length of
  the payloads before it.
\<close>

definition offset :: "bytes list \<Rightarrow> nat \<Rightarrow> int" where
  "offset ps i = int (length (concat (take i ps)))"

section \<open>Call ids\<close>

text \<open>
  \<^verbatim>\<open>call_id = "{:05d}".format(i)\<close> with \<open>i\<close> from \<^verbatim>\<open>range(N)\<close>: the decimal digits
  of a non-negative integer, padded on the left with zeros up to a width of at least 5.
  Longer numbers are not cut. Python compares strings lexicographically by code point,
  which is the order of \<^typ>\<open>string\<close> here.
\<close>

definition digit_char :: "nat \<Rightarrow> char" where
  "digit_char d = ''0123456789'' ! d"

fun str_nat :: "nat \<Rightarrow> string" where
  "str_nat n = (if n < 10 then [digit_char n] else str_nat (n div 10) @ [digit_char (n mod 10)])"

declare str_nat.simps [simp del]

definition format_05d :: "nat \<Rightarrow> string" where
  "format_05d i = (let s = str_nat i in replicate (5 - length s) CHR ''0'' @ s)"

text \<open>The decimal digits of \<open>n\<close> at a fixed width \<open>w\<close> (the last \<open>w\<close> digits).\<close>

fun padded :: "nat \<Rightarrow> nat \<Rightarrow> string" where
  "padded 0 n = []"
| "padded (Suc w) n = padded w (n div 10) @ [digit_char (n mod 10)]"

section \<open>Values, dictionaries, handles\<close>

text \<open>
  The values stored in the argument record and in the host job metadata. A reading of
  \<^verbatim>\<open>time.time()\<close> is the number of the reading (\<open>PTime\<close>), a difference of two
  readings keeps both (\<open>PSpan later earlier\<close>). A Python \<^verbatim>\<open>dict\<close> is an association
  list with distinct keys in insertion order: \<open>d[k] = v\<close> is \<^const>\<open>AList.update\<close>
  (replace in place, or append), \<open>k in d\<close> is membership in the keys.
\<close>

datatype pyval =
    PNone
  | PBool bool
  | PInt int
  | PStr string
  | PBytes bytes
  | PTime nat
  | PSpan nat nat
  | PRange int int
  | PDict "(string \<times> pyval) list"

type_synonym pydict = "(string \<times> pyval) list"

definition dict_update :: "pydict \<Rightarrow> pydict \<Rightarrow> pydict" where
  \<comment> \<open>\<^verbatim>\<open>d.update(other)\<close>\<close>
  "dict_update d other = fold (\<lambda>(k, v). AList.update k v) other d"

text \<open>
  Modelled from the spec: the states of a ResultHandle (\<^verbatim>\<open>pywren.future.JobState\<close> is
  not part of the source at hand, which only names \<^verbatim>\<open>JobState.invoked\<close>):
  created, then invoked, then one of success, failed, cancelled.
\<close>

datatype JobState = created | invoked | success | failed | cancelled

text \<open>\<^verbatim>\<open>ResponseFuture(call_id, callset_id, host_job_meta, storage_path)\<close> and its state.\<close>

record ResponseFuture =
  fut_call_id :: string
  fut_callset_id :: string
  fut_invoke_metadata :: pydict
  fut_storage_path :: pyval
  fut_state :: JobState

text \<open>
  The objects handed to the serializer: opaque user objects, a list of handles (the
  input of a reduction) and the closure \<^verbatim>\<open>reduce_func\<close> over a user function.
\<close>

datatype pyobj = Obj nat | FutureList "ResponseFuture list" | ReduceFunc pyobj

datatype error =
    ValueError_KeyAlreadyInDict string
  | ValueError_MapItemLimit nat int
  | ValueError_PoolSize int
  | AssertionError_hint
  | AssertionError_modes
  | UnboundLocalError string
  | IndexError
  | HandleFailure string string

section \<open>The executor, its collaborators and the world\<close>

text \<open>The fields of \<^verbatim>\<open>self\<close> that the methods read.\<close>

record Executor =
  job_max_runtime :: int
  map_item_limit :: "int option"
  storage_prefix :: string
  storage_config :: pyval
  runtime :: pyval
  runtime_urls :: "string list option"
  invoker_config :: pydict

text \<open>
  The modules outside the source at hand (serializer, key scheme, configuration
  constants, random source, remote outcome of a call) are parameters.
  \<open>runtime_urls\<close> is \<open>Some urls\<close> when \<^verbatim>\<open>'urls' in self.runtime_meta_info\<close> and
  the entry is a list.
\<close>

record collab =
  dumps :: "pyobj \<Rightarrow> bytes"
  module_paths :: "pyobj list \<Rightarrow> string list"
  create_mod_data :: "string list \<Rightarrow> pyval"
  pickle_dumps :: "pyval \<Rightarrow> bytes"
  create_keys :: "string \<Rightarrow> string \<Rightarrow> string \<Rightarrow> string \<times> string \<times> string \<times> string"
  create_func_key :: "string \<Rightarrow> string \<Rightarrow> string"
  create_mod_key :: "string \<Rightarrow> string \<Rightarrow> string"
  create_agg_data_key :: "string \<Rightarrow> string \<Rightarrow> string"
  create_callset_id :: "nat \<Rightarrow> string"
  get_storage_path :: "pyval \<Rightarrow> pyval"
  random_draw :: "nat \<Rightarrow> nat"
  MAX_AGG_DATA_SIZE :: int
  version :: string
  eventual_state :: "string \<Rightarrow> string \<Rightarrow> JobState option"

text \<open>
  Everything the orchestrator does to the outside is an event appended to the trace of
  the world; the clock, the random source and the callset-id source are counters.
\<close>

datatype event =
    Serialize "pyobj list" bool
  | CreateModData "string list"
  | PutData string bytes
  | PutFunc string bytes
  | PutModuleDependencies string bytes
  | Invoke pydict

record world =
  trace :: "event list"
  clock :: nat
  rand_pos :: nat
  callsets :: nat

definition emit :: "event \<Rightarrow> world \<Rightarrow> world" where
  "emit e w = w\<lparr>trace := trace w @ [e]\<rparr>"

definition time_time :: "world \<Rightarrow> nat \<times> world" where
  "time_time w = (clock w, w\<lparr>clock := Suc (clock w)\<rparr>)"

text \<open>
  Modelled from the spec: the Serializer (\<^verbatim>\<open>pywren.serialize\<close>, not part of the source
  at hand) turns a list of objects into one byte payload per object, in order, and a
  set of module-dependency paths; with \<^verbatim>\<open>_ignore_module_dependencies=True\<close> the
  module graph is not walked.
\<close>

definition serializer :: "collab \<Rightarrow> world \<Rightarrow> pyobj list \<Rightarrow> bool \<Rightarrow> (bytes list \<times> string list) \<times> world" where
  "serializer c w objs ignore_deps =
     ((map (dumps c) objs, if ignore_deps then [] else module_paths c objs),
      emit (Serialize objs ignore_deps) w)"

definition put_data :: "world \<Rightarrow> string \<Rightarrow> bytes \<Rightarrow> world" where
  "put_data w data_key data_str = emit (PutData data_key data_str) w"

section \<open>invoke\_with\_keys\<close>

definition choose_runtime_url :: "collab \<Rightarrow> Executor \<Rightarrow> world \<Rightarrow> string \<times> world" where
  "choose_runtime_url c self w =
     (case runtime_urls self of
        None \<Rightarrow> ('''', w)
      | Some urls \<Rightarrow>
          if length urls \<ge> 1
          then (urls ! (random_draw c (rand_pos w) mod length urls),
                w\<lparr>rand_pos := Suc (rand_pos w)\<rparr>)
          else ('''', w))"

text \<open>
  \<^verbatim>\<open>
  for k, v in extra_meta.items():
      if k in arg_dict:
          raise ValueError("Key {} already in dict".format(k))
      arg_dict[k] = v
  \<close>
\<close>

fun merge_extra_meta :: "pydict \<Rightarrow> pydict \<Rightarrow> error + pydict" where
  "merge_extra_meta [] arg_dict = Inr arg_dict"
| "merge_extra_meta ((k, v) # rest) arg_dict =
     (if k \<in> fst ` set arg_dict then Inl (ValueError_KeyAlreadyInDict k)
      else merge_extra_meta rest (AList.update k v arg_dict))"

definition required_fields :: "string list" where
  "required_fields =
     [''storage_config'', ''func_key'', ''data_key'', ''output_key'', ''status_key'',
      ''cancel_key'', ''callset_id'', ''job_max_runtime'', ''data_byte_range'', ''call_id'',
      ''use_cached_runtime'', ''runtime'', ''pywren_version'', ''runtime_url'']"

definition build_arg_dict ::
  "collab \<Rightarrow> Executor \<Rightarrow> string \<Rightarrow> string \<Rightarrow> string \<Rightarrow> string \<Rightarrow> string \<Rightarrow> string \<Rightarrow>
   int \<Rightarrow> pyval \<Rightarrow> string \<Rightarrow> bool \<Rightarrow> string \<Rightarrow> pydict" where
  "build_arg_dict c self func_key data_key output_key status_key cancel_key callset_id
      max_runtime data_byte_range call_id cached runtime_url =
     [(''storage_config'', storage_config self),
      (''func_key'', PStr func_key),
      (''data_key'', PStr data_key),
      (''output_key'', PStr output_key),
      (''status_key'', PStr status_key),
      (''cancel_key'', PStr cancel_key),
      (''callset_id'', PStr callset_id),
      (''job_max_runtime'', PInt max_runtime),
      (''data_byte_range'', data_byte_range),
      (''call_id'', PStr call_id),
      (''use_cached_runtime'', PBool cached),
      (''runtime'', runtime self),
      (''pywren_version'', PStr (version c)),
      (''runtime_url'', PStr runtime_url)]"

definition invoke_with_keys ::
  "collab \<Rightarrow> Executor \<Rightarrow> world \<Rightarrow> string \<Rightarrow> string \<Rightarrow> string \<Rightarrow> string \<Rightarrow> string \<Rightarrow>
   string \<Rightarrow> string \<Rightarrow> pydict option \<Rightarrow> pydict option \<Rightarrow> pyval \<Rightarrow> bool \<Rightarrow> pydict \<Rightarrow> int \<Rightarrow>
   pydict option \<Rightarrow> (error + ResponseFuture) \<times> world" where
  "invoke_with_keys c self w func_key data_key output_key status_key cancel_key
      callset_id call_id env meta data_byte_range cached host_job_meta max_runtime overwrite =
     (let (runtime_url, w) = choose_runtime_url c self w;
          arg_dict = build_arg_dict c self func_key data_key output_key status_key cancel_key
             callset_id max_runtime data_byte_range call_id cached runtime_url;
          arg_dict = (case env of None \<Rightarrow> arg_dict
                      | Some e \<Rightarrow> AList.update ''extra_env'' (PDict e) arg_dict)
      in case (case meta of None \<Rightarrow> Inr arg_dict | Some m \<Rightarrow> merge_extra_meta m arg_dict) of
           Inl err \<Rightarrow> (Inl err, w)
         | Inr arg_dict \<Rightarrow>
            (let (host_submit_time, w) = time_time w;
                 arg_dict = AList.update ''host_submit_time'' (PTime host_submit_time) arg_dict;
                 (lambda_invoke_time_start, w) = time_time w;
                 arg_dict = (case overwrite of None \<Rightarrow> arg_dict
                             | Some ov \<Rightarrow> dict_update arg_dict ov);
                 w = emit (Invoke arg_dict) w;
                 host_job_meta = AList.update ''lambda_invoke_timestamp''
                    (PTime lambda_invoke_time_start) host_job_meta;
                 (invoke_end, w) = time_time w;
                 host_job_meta = AList.update ''lambda_invoke_time''
                    (PSpan invoke_end lambda_invoke_time_start) host_job_meta;
                 host_job_meta = dict_update host_job_meta (invoker_config self);
                 host_job_meta = dict_update host_job_meta arg_dict;
                 fut = \<lparr>fut_call_id = call_id, fut_callset_id = callset_id,
                        fut_invoke_metadata = host_job_meta,
                        fut_storage_path = get_storage_path c (storage_config self),
                        fut_state = invoked\<rparr>
             in (Inr fut, w)))"

section \<open>parse\_module\_dependencies\<close>

text \<open>
  \<^verbatim>\<open>
  assert hint is not None
  assert not (from_shared_storage and sync_to_shared_storage)
  user_key = hint
  if from_shared_storage:
      return
  func_str, mod_paths = self.serializer([func])
  func_str = func_str[0]
  module_data = create_mod_data(mod_paths)
  func_module_str = pickle.dumps({'func' : func_str, 'module_data' : module_data}, -1)
  if sync_to_shared_storage:
      storage_key = create_mod_key(self.storage.prefix, user_key)
      self.storage.put_module_dependencies(storage_key, func_module_str)
  \<close>
  The method returns \<^verbatim>\<open>None\<close> on every path that does not raise.
\<close>

definition func_module_str_of :: "collab \<Rightarrow> bytes \<Rightarrow> pyval \<Rightarrow> bytes" where
  "func_module_str_of c func_str module_data =
     pickle_dumps c (PDict [(''func'', PBytes func_str), (''module_data'', module_data)])"

definition parse_module_dependencies ::
  "collab \<Rightarrow> Executor \<Rightarrow> world \<Rightarrow> pyobj \<Rightarrow> string option \<Rightarrow> bool \<Rightarrow> bool \<Rightarrow>
   (error + unit) \<times> world" where
  "parse_module_dependencies c self w func hint from_shared_storage sync_to_shared_storage =
     (case hint of
        None \<Rightarrow> (Inl AssertionError_hint, w)
      | Some user_key \<Rightarrow>
          if from_shared_storage \<and> sync_to_shared_storage then (Inl AssertionError_modes, w)
          else if from_shared_storage then (Inr (), w)
          else
            (let ((func_strs, mod_paths), w) = serializer c w [func] False
             in case func_strs of
                  [] \<Rightarrow> (Inl IndexError, w)
                | func_str # _ \<Rightarrow>
                   (let w = emit (CreateModData mod_paths) w;
                        module_data = create_mod_data c mod_paths;
                        func_module_str = func_module_str_of c func_str module_data
                    in if sync_to_shared_storage
                       then (let storage_key = create_mod_key c (storage_prefix self) user_key
                             in (Inr (), emit (PutModuleDependencies storage_key func_module_str) w))
                       else (Inr (), w))))"

section \<open>map\<close>

record map_args =
  extra_env :: "pydict option"
  extra_meta :: "pydict option"
  invoke_pool_threads :: int
  data_all_as_one :: bool
  use_cached_runtime :: bool
  overwrite_invoke_args :: "pydict option"
  exclude_modules :: "string list option"
  module_dependencies_key :: "string option"

definition default_map_args :: map_args where
  "default_map_args =
     \<lparr>extra_env = None, extra_meta = None, invoke_pool_threads = 64, data_all_as_one = True,
      use_cached_runtime = True, overwrite_invoke_args = None, exclude_modules = None,
      module_dependencies_key = None\<rparr>"

text \<open>
  \<^verbatim>\<open>
  for module in exclude_modules:
      for mod_path in list(mod_paths):
          if module in mod_path and mod_path in mod_paths:
              mod_paths.remove(mod_path)
  \<close>
  \<^verbatim>\<open>module in mod_path\<close> is the substring test on strings.
\<close>

definition exclude_module :: "string \<Rightarrow> string list \<Rightarrow> string list" where
  "exclude_module module mod_paths =
     fold (\<lambda>mod_path mps. if sublist module mod_path \<and> mod_path \<in> set mps
                            then remove1 mod_path mps else mps)
       mod_paths mod_paths"

text \<open>
  A local variable that no executed assignment has bound is \<open>None\<close>; reading it raises
  \<^verbatim>\<open>UnboundLocalError\<close>, Python's unbound-name error for locals.
\<close>

definition read_local :: "string \<Rightarrow> 'a option \<Rightarrow> error + 'a" where
  "read_local name v = (case v of None \<Rightarrow> Inl (UnboundLocalError name) | Some x \<Rightarrow> Inr x)"

text \<open>The argument tuple of one \<^verbatim>\<open>pool.apply_async(invoke, (...))\<close>.\<close>

record task =
  t_data_str :: bytes
  t_callset_id :: string
  t_call_id :: string
  t_func_key :: string
  t_host_job_meta :: pydict
  t_agg_data_key :: "string option"
  t_data_byte_range :: "(int \<times> int) option"

definition range_val :: "(int \<times> int) option \<Rightarrow> pyval" where
  "range_val r = (case r of None \<Rightarrow> PNone | Some (a, b) \<Rightarrow> PRange a b)"

text \<open>
  The closure \<^verbatim>\<open>invoke\<close> defined inside \<^verbatim>\<open>map\<close>; it captures \<open>self\<close>,
  \<open>extra_env\<close>, \<open>extra_meta\<close>, \<open>use_cached_runtime\<close> and \<open>overwrite_invoke_args\<close>.
\<close>

definition invoke :: "collab \<Rightarrow> Executor \<Rightarrow> map_args \<Rightarrow> world \<Rightarrow> task \<Rightarrow> (error + ResponseFuture) \<times> world" where
  "invoke c self args w t =
     (let (data_key, output_key, status_key, cancel_key) =
            create_keys c (storage_prefix self) (t_callset_id t) (t_call_id t);
          (job_invoke_timestamp, w) = time_time w;
          host_job_meta = AList.update ''job_invoke_timestamp'' (PTime job_invoke_timestamp)
             (t_host_job_meta t);
          (data_key, host_job_meta, w) =
            (case t_agg_data_key t of
               None \<Rightarrow>
                 (let (upload_start, w) = time_time w;
                      w = put_data w data_key (t_data_str t);
                      (upload_end, w) = time_time w;
                      host_job_meta = AList.update ''data_upload_time''
                         (PSpan upload_end upload_start) host_job_meta;
                      (upload_timestamp, w) = time_time w;
                      host_job_meta = AList.update ''data_upload_timestamp''
                         (PTime upload_timestamp) host_job_meta
                  in (data_key, host_job_meta, w))
             | Some agg_data_key \<Rightarrow> (agg_data_key, host_job_meta, w))
      in invoke_with_keys c self w (t_func_key t) data_key output_key status_key cancel_key
           (t_callset_id t) (t_call_id t) (extra_env args) (extra_meta args)
           (range_val (t_data_byte_range t)) (use_cached_runtime args) host_job_meta
           (job_max_runtime self) (overwrite_invoke_args args))"

text \<open>
  The worker pool. Every submitted task has a result cell (its \<^verbatim>\<open>AsyncResult\<close>),
  empty until the task has run. The schedule lists task indices in the order in which
  the pool completes them; an index out of range or of a task that has already run is
  skipped, since a task runs once. A task runs against the world as its predecessors in
  the schedule left it.
\<close>

fun run_pool ::
  "(world \<Rightarrow> task \<Rightarrow> (error + ResponseFuture) \<times> world) \<Rightarrow> task list \<Rightarrow> nat list \<Rightarrow>
   (error + ResponseFuture) option list \<Rightarrow> world \<Rightarrow>
   (error + ResponseFuture) option list \<times> world" where
  "run_pool f tasks [] cells w = (cells, w)"
| "run_pool f tasks (i # sched) cells w =
     (if i < length tasks \<and> i < length cells \<and> cells ! i = None
      then (let (r, w') = f w (tasks ! i)
            in run_pool f tasks sched (cells[i := Some r]) w')
      else run_pool f tasks sched cells w)"

text \<open>
  \<^verbatim>\<open>res = [c.get() for c in call_result_objs]\<close>: the cells are read in submission
  order. Reading a cell whose task raised raises the same error; reading a cell whose
  task never completes does not return (\<open>None\<close>).
\<close>

fun get_all :: "(error + 'a) option list \<Rightarrow> (error + 'a list) option" where
  "get_all [] = Some (Inr [])"
| "get_all (None # cs) = None"
| "get_all (Some (Inl e) # cs) = Some (Inl e)"
| "get_all (Some (Inr x) # cs) =
     (case get_all cs of
        None \<Rightarrow> None
      | Some (Inl e) \<Rightarrow> Some (Inl e)
      | Some (Inr xs) \<Rightarrow> Some (Inr (x # xs)))"

text \<open>
  The local state of \<^verbatim>\<open>map\<close> when the fan-out loop starts (line 333):
  \<open>p_agg\<close> is \<open>Some (agg_data_key, agg_data_ranges)\<close> when the payloads were
  aggregated and \<open>None\<close> when \<open>agg_data_key\<close> is \<^verbatim>\<open>None\<close>.
\<close>

record prepared =
  p_callset_id :: string
  p_func_key :: string
  p_data_strs :: "bytes list"
  p_host_job_meta :: pydict
  p_agg :: "(string \<times> (int \<times> int) list) option"

text \<open>Lines 236 to 301 of \<^verbatim>\<open>map\<close>: packaging, aggregation, module exclusion, upload.\<close>

definition map_prepare ::
  "collab \<Rightarrow> Executor \<Rightarrow> world \<Rightarrow> pyobj \<Rightarrow> pyobj list \<Rightarrow> map_args \<Rightarrow> (error + prepared) \<times> world" where
  "map_prepare c self w func data args =
     (let host_job_meta = [];
          callset_id = create_callset_id c (callsets w);
          w = w\<lparr>callsets := Suc (callsets w)\<rparr>;
          ((func_and_data_ser, mod_paths), w) =
            (case module_dependencies_key args of
               None \<Rightarrow> (let ((ser, mps), w) = serializer c w (func # data) False
                         in ((ser, Some mps), w))
             | Some _ \<Rightarrow> (let ((ser, _), w) = serializer c w (func # data) True
                           in ((ser, None), w)))
      in case func_and_data_ser of
           [] \<Rightarrow> (Inl IndexError, w)
         | func_str # data_strs \<Rightarrow>
            (let data_size_bytes = (\<Sum>x\<leftarrow>data_strs. int (length x));
                 host_job_meta = AList.update ''agg_data'' (PBool False) host_job_meta;
                 host_job_meta = AList.update ''data_size_bytes'' (PInt data_size_bytes) host_job_meta;
                 (agg, host_job_meta, w) =
                   (if data_size_bytes < MAX_AGG_DATA_SIZE c \<and> data_all_as_one args
                    then (let agg_data_key = create_agg_data_key c (storage_prefix self) callset_id;
                              (agg_data_bytes, agg_data_ranges) = agg_data data_strs;
                              (agg_upload_time, w) = time_time w;
                              w = emit (PutData agg_data_key agg_data_bytes) w;
                              host_job_meta = AList.update ''agg_data'' (PBool True) host_job_meta;
                              (upload_end, w) = time_time w;
                              host_job_meta = AList.update ''data_upload_time''
                                 (PSpan upload_end agg_upload_time) host_job_meta;
                              (upload_timestamp, w) = time_time w;
                              host_job_meta = AList.update ''data_upload_timestamp''
                                 (PTime upload_timestamp) host_job_meta
                          in (Some (agg_data_key, agg_data_ranges), host_job_meta, w))
                    else (None, host_job_meta, w))
             in case (case exclude_modules args of
                        None \<Rightarrow> Inr mod_paths
                      | Some [] \<Rightarrow> Inr mod_paths
                      | Some (module # modules) \<Rightarrow>
                          (case read_local ''mod_paths'' mod_paths of
                             Inl err \<Rightarrow> Inl err
                           | Inr mps \<Rightarrow> Inr (Some (fold exclude_module (module # modules) mps)))) of
                  Inl err \<Rightarrow> (Inl err, w)
                | Inr mod_paths \<Rightarrow>
                   (case module_dependencies_key args of
                      None \<Rightarrow>
                        (case read_local ''mod_paths'' mod_paths of
                           Inl err \<Rightarrow> (Inl err, w)
                         | Inr mps \<Rightarrow>
                            (let w = emit (CreateModData mps) w;
                                 module_data = create_mod_data c mps;
                                 (func_upload_time, w) = time_time w;
                                 func_module_str = func_module_str_of c func_str module_data;
                                 host_job_meta = AList.update ''func_module_str_len''
                                    (PInt (int (length func_module_str))) host_job_meta;
                                 func_key = create_func_key c (storage_prefix self) callset_id;
                                 w = emit (PutFunc func_key func_module_str) w;
                                 (upload_end, w) = time_time w;
                                 host_job_meta = AList.update ''func_upload_time''
                                    (PSpan upload_end func_upload_time) host_job_meta;
                                 (upload_timestamp, w) = time_time w;
                                 host_job_meta = AList.update ''func_upload_timestamp''
                                    (PTime upload_timestamp) host_job_meta
                             in (Inr \<lparr>p_callset_id = callset_id, p_func_key = func_key,
                                      p_data_strs = data_strs, p_host_job_meta = host_job_meta,
                                      p_agg = agg\<rparr>, w)))
                    | Some dependencies_key \<Rightarrow>
                        (let (func_upload_time, w) = time_time w;
                             func_key = create_mod_key c (storage_prefix self) dependencies_key;
                             host_job_meta = AList.update ''func_module_str_len'' (PInt 0) host_job_meta;
                             (upload_end, w) = time_time w;
                             host_job_meta = AList.update ''func_upload_time''
                                (PSpan upload_end func_upload_time) host_job_meta;
                             (upload_timestamp, w) = time_time w;
                             host_job_meta = AList.update ''func_upload_timestamp''
                                (PTime upload_timestamp) host_job_meta
                         in (Inr \<lparr>p_callset_id = callset_id, p_func_key = func_key,
                                  p_data_strs = data_strs, p_host_job_meta = host_job_meta,
                                  p_agg = agg\<rparr>, w)))))"

text \<open>
  \<^verbatim>\<open>
  for i in range(N):
      call_id = "{:05d}".format(i)
      data_byte_range = None
      if agg_data_key is not None:
          data_byte_range = agg_data_ranges[i]
      cb = pool.apply_async(invoke, (data_strs[i], callset_id, call_id, func_key,
                                     host_job_meta.copy(), agg_data_key, data_byte_range))
      call_result_objs.append(cb)
  \<close>
\<close>

definition submit :: "prepared \<Rightarrow> nat \<Rightarrow> task" where
  "submit p i =
     \<lparr>t_data_str = p_data_strs p ! i,
      t_callset_id = p_callset_id p,
      t_call_id = format_05d i,
      t_func_key = p_func_key p,
      t_host_job_meta = p_host_job_meta p,
      t_agg_data_key = map_option fst (p_agg p),
      t_data_byte_range = (case p_agg p of None \<Rightarrow> None
                           | Some (agg_data_key, agg_data_ranges) \<Rightarrow> Some (agg_data_ranges ! i))\<rparr>"

definition submissions :: "prepared \<Rightarrow> nat \<Rightarrow> task list" where
  "submissions p N = map (submit p) [0..<N]"

text \<open>
  \<^verbatim>\<open>map\<close>. The result is \<open>None\<close> when the call does not return (a task of the pool
  never completes), otherwise what it returns or raises, with the world it leaves.
\<close>

definition map_dispatch ::
  "collab \<Rightarrow> Executor \<Rightarrow> nat list \<Rightarrow> world \<Rightarrow> pyobj \<Rightarrow> pyobj list \<Rightarrow> map_args \<Rightarrow>
   ((error + ResponseFuture list) \<times> world) option" where
  \<comment> \<open>from line 236 on; \<^verbatim>\<open>ThreadPool(n)\<close> raises \<^verbatim>\<open>ValueError\<close> for \<open>n < 1\<close>\<close>
  "map_dispatch c self sched w func data args =
     (if invoke_pool_threads args < 1
      then Some (Inl (ValueError_PoolSize (invoke_pool_threads args)), w)
      else
        (case map_prepare c self w func data args of
           (Inl err, w) \<Rightarrow> Some (Inl err, w)
         | (Inr p, w) \<Rightarrow>
            (let N = length data;
                 tasks = submissions p N;
                 (cells, w) = run_pool (invoke c self args) tasks sched (replicate N None) w
             in case get_all cells of
                  None \<Rightarrow> None
                | Some res \<Rightarrow> Some (res, w))))"

definition map_exec ::
  "collab \<Rightarrow> Executor \<Rightarrow> nat list \<Rightarrow> world \<Rightarrow> pyobj \<Rightarrow> pyobj list \<Rightarrow> map_args \<Rightarrow>
   ((error + ResponseFuture list) \<times> world) option" where
  "map_exec c self sched w func iterdata args =
     (let data = iterdata
      in if data = [] then Some (Inr [], w)
         else
           (case map_item_limit self of
              None \<Rightarrow> map_dispatch c self sched w func data args
            | Some limit \<Rightarrow>
                if int (length data) > limit
                then Some (Inl (ValueError_MapItemLimit (length data) limit), w)
                else map_dispatch c self sched w func data args))"

text \<open>\<^verbatim>\<open>call_async\<close>: \<^verbatim>\<open>self.map(func, [data], extra_env, extra_meta)[0]\<close>.\<close>

definition call_async ::
  "collab \<Rightarrow> Executor \<Rightarrow> nat list \<Rightarrow> world \<Rightarrow> pyobj \<Rightarrow> pyobj \<Rightarrow> pydict option \<Rightarrow> pydict option \<Rightarrow>
   ((error + ResponseFuture) \<times> world) option" where
  "call_async c self sched w func data env meta =
     (case map_exec c self sched w func [data]
             (default_map_args\<lparr>extra_env := env, extra_meta := meta\<rparr>) of
        None \<Rightarrow> None
      | Some (Inl err, w) \<Rightarrow> Some (Inl err, w)
      | Some (Inr [], w) \<Rightarrow> Some (Inl IndexError, w)
      | Some (Inr (fut # _), w) \<Rightarrow> Some (Inr fut, w))"

section \<open>reduce\<close>

text \<open>
  Modelled from the spec: the Wait Utility (\<^verbatim>\<open>pywren.wait\<close>, not part of the source at
  hand). With \<^verbatim>\<open>return_when=ALL_COMPLETED\<close> it blocks indefinitely until all handles
  reach a terminal state (success, failed or cancelled). It returns once every handle is
  in the terminal successful state; a handle that ends in another terminal state has
  failed, and its failure propagates to the caller. \<open>eventual_state c callset_id
  call_id\<close> is the terminal state the call reaches, \<open>None\<close> if it never reaches one.
\<close>

definition terminal :: "JobState \<Rightarrow> bool" where
  "terminal s = (s = success \<or> s = failed \<or> s = cancelled)"

definition handle_outcome :: "collab \<Rightarrow> ResponseFuture \<Rightarrow> JobState option" where
  "handle_outcome c f =
     (case eventual_state c (fut_callset_id f) (fut_call_id f) of
        None \<Rightarrow> None
      | Some s \<Rightarrow> if terminal s then Some s else None)"

definition wait :: "collab \<Rightarrow> ResponseFuture list \<Rightarrow> (error + unit) option" where
  "wait c fs =
     (if list_ex (\<lambda>f. handle_outcome c f = None) fs then None
      else case find (\<lambda>f. handle_outcome c f \<noteq> Some success) fs of
             Some f \<Rightarrow> Some (Inl (HandleFailure (fut_callset_id f) (fut_call_id f)))
           | None \<Rightarrow> Some (Inr ()))"

text \<open>
  \<^verbatim>\<open>
  wait(list_of_futures, return_when=ALL_COMPLETED) # avoid race condition
  def reduce_func(fut_list): ...
  return self.call_async(reduce_func, list_of_futures,
                         extra_env=extra_env, extra_meta=extra_meta)
  \<close>
\<close>

definition reduce ::
  "collab \<Rightarrow> Executor \<Rightarrow> nat list \<Rightarrow> world \<Rightarrow> pyobj \<Rightarrow> ResponseFuture list \<Rightarrow> pydict option \<Rightarrow>
   pydict option \<Rightarrow> ((error + ResponseFuture) \<times> world) option" where
  "reduce c self sched w function list_of_futures env meta =
     (case wait c list_of_futures of
        None \<Rightarrow> None
      | Some (Inl err) \<Rightarrow> Some (Inl err, w)
      | Some (Inr _) \<Rightarrow>
          call_async c self sched w (ReduceFunc function) (FutureList list_of_futures) env meta)"

section \<open>Observations\<close>

text \<open>The data uploads, function-package uploads and backend invocations of a trace.\<close>

definition data_puts :: "event list \<Rightarrow> (string \<times> bytes) list" where
  "data_puts tr = concat (map (\<lambda>e. case e of PutData k b \<Rightarrow> [(k, b)] | _ \<Rightarrow> []) tr)"

definition func_puts :: "event list \<Rightarrow> (string \<times> bytes) list" where
  "func_puts tr = concat (map (\<lambda>e. case e of PutFunc k b \<Rightarrow> [(k, b)] | _ \<Rightarrow> []) tr)"

definition invocations :: "event list \<Rightarrow> pydict list" where
  "invocations tr = concat (map (\<lambda>e. case e of Invoke a \<Rightarrow> [a] | _ \<Rightarrow> []) tr)"

text \<open>
  The condition of line 258 on the inputs of a \<^verbatim>\<open>map\<close> call: the total size of the
  serialized payloads is below the threshold and the caller has not opted out.
\<close>

definition aggregates :: "collab \<Rightarrow> map_args \<Rightarrow> pyobj list \<Rightarrow> bool" where
  "aggregates c args data =
     ((\<Sum>x\<leftarrow>map (dumps c) data. int (length x)) < MAX_AGG_DATA_SIZE c \<and> data_all_as_one args)"

text \<open>The keys that \<^verbatim>\<open>map\<close> derives for a callset created in world \<open>w\<close>.\<close>

definition callset_of :: "collab \<Rightarrow> world \<Rightarrow> string" where
  "callset_of c w = create_callset_id c (callsets w)"

definition agg_key_of :: "collab \<Rightarrow> Executor \<Rightarrow> world \<Rightarrow> string" where
  "agg_key_of c self w = create_agg_data_key c (storage_prefix self) (callset_of c w)"

definition data_key_of :: "collab \<Rightarrow> Executor \<Rightarrow> world \<Rightarrow> nat \<Rightarrow> string" where
  "data_key_of c self w i =
     fst (create_keys c (storage_prefix self) (callset_of c w) (format_05d i))"

definition within_limit :: "Executor \<Rightarrow> pyobj list \<Rightarrow> bool" where
  "within_limit self data =
     (case map_item_limit self of None \<Rightarrow> True | Some limit \<Rightarrow> int (length data) \<le> limit)"

text \<open>
  The keys that are in \<open>arg_dict\<close> when the metadata is merged (line 119): the
  fourteen keys of the literal and, when \<open>extra_env\<close> is given, its key.
\<close>

definition reserved_keys :: "pydict option \<Rightarrow> string set" where
  "reserved_keys env =
     set required_fields \<union> (case env of None \<Rightarrow> {} | Some _ \<Rightarrow> {''extra_env''})"

definition overridden :: "pydict option \<Rightarrow> string \<Rightarrow> bool" where
  "overridden overwrite k = (case overwrite of None \<Rightarrow> False | Some ov \<Rightarrow> k \<in> fst ` set ov)"

text \<open>
  The value that a field of the record has after line 134: what the override map says
  (its last entry under the key; a dictionary has one), and the computed value when the
  override map is absent or does not name the field.
\<close>

definition final_field :: "pydict option \<Rightarrow> string \<Rightarrow> pyval \<Rightarrow> pyval" where
  "final_field overwrite k computed =
     (case overwrite of
        None \<Rightarrow> computed
      | Some ov \<Rightarrow> (case map_of (rev ov) k of None \<Rightarrow> computed | Some v \<Rightarrow> v))"

text \<open>
  What it means for the record \<open>sent\<close> to the backend, and for the handle \<open>fut\<close>
  that keeps its entries, to carry a data key and a byte range: the two fields hold
  them, or the overriding value when the override map names the field.
\<close>

definition carries :: "pydict option \<Rightarrow> pydict \<Rightarrow> ResponseFuture \<Rightarrow> string \<Rightarrow> pyval \<Rightarrow> bool" where
  "carries overwrite sent fut data_key byte_range =
     ((\<forall>k \<in> fst ` set sent. map_of (fut_invoke_metadata fut) k = map_of sent k) \<and>
      map_of sent ''data_key'' = Some (final_field overwrite ''data_key'' (PStr data_key)) \<and>
      map_of sent ''data_byte_range'' = Some (final_field overwrite ''data_byte_range'' byte_range))"

text \<open>The data key that the closure \<^verbatim>\<open>invoke\<close> hands on for a task (lines 311 to 321).\<close>

definition task_data_key :: "collab \<Rightarrow> Executor \<Rightarrow> task \<Rightarrow> string" where
  "task_data_key c self t =
     (case t_agg_data_key t of
        None \<Rightarrow> fst (create_keys c (storage_prefix self) (t_callset_id t) (t_call_id t))
      | Some agg_data_key \<Rightarrow> agg_data_key)"

text \<open>
  The invariant of the pool: since the pool started with trace \<open>tr0\<close>, there is one
  data upload per completed task that has no aggregated key, the upload of each such
  task is among them, and for each task that returned a handle the backend has been
  sent a record that carries the task's data key and byte range.
\<close>

definition pool_inv ::
  "collab \<Rightarrow> Executor \<Rightarrow> map_args \<Rightarrow> task list \<Rightarrow> event list \<Rightarrow>
   (error + ResponseFuture) option list \<Rightarrow> world \<Rightarrow> bool" where
  "pool_inv c self args tasks tr0 cs v =
     (\<exists>evs. trace v = tr0 @ evs \<and>
        length (data_puts evs) =
          card {i. i < length tasks \<and> cs ! i \<noteq> None \<and> t_agg_data_key (tasks ! i) = None} \<and>
        (\<forall>i < length tasks. cs ! i \<noteq> None \<longrightarrow> t_agg_data_key (tasks ! i) = None \<longrightarrow>
           (task_data_key c self (tasks ! i), t_data_str (tasks ! i)) \<in> set (data_puts evs)) \<and>
        (\<forall>i < length tasks. \<forall>fut. cs ! i = Some (Inr fut) \<longrightarrow>
           (\<exists>sent \<in> set (invocations evs).
              carries (overwrite_invoke_args args) sent fut (task_data_key c self (tasks ! i))
                (range_val (t_data_byte_range (tasks ! i))))))"

section \<open>A concrete configuration\<close>

text \<open>Concrete collaborators, executor and world, on which the theorems are instantiated.\<close>

definition c0 :: collab where
  "c0 = \<lparr>dumps = (\<lambda>obj. case obj of Obj n \<Rightarrow> replicate n 7 | _ \<Rightarrow> [1]),
        module_paths = (\<lambda>_. [''numpy/core'', ''mylib'']),
        create_mod_data = (\<lambda>ps. PDict (map (\<lambda>p. (p, PNone)) ps)),
        pickle_dumps = (\<lambda>_. [9, 9]),
        create_keys = (\<lambda>p cs ci. (p @ ''/'' @ cs @ ''/'' @ ci @ ''/data'',
                                 p @ ''/'' @ cs @ ''/'' @ ci @ ''/output'',
                                 p @ ''/'' @ cs @ ''/'' @ ci @ ''/status'',
                                 p @ ''/'' @ cs @ ''/'' @ ci @ ''/cancel'')),
        create_func_key = (\<lambda>p cs. p @ ''/'' @ cs @ ''/func''),
        create_mod_key = (\<lambda>p k. p @ ''/mod/'' @ k),
        create_agg_data_key = (\<lambda>p cs. p @ ''/'' @ cs @ ''/aggdata''),
        create_callset_id = (\<lambda>n. ''cs'' @ format_05d n),
        get_storage_path = (\<lambda>v. v),
        random_draw = (\<lambda>n. n),
        MAX_AGG_DATA_SIZE = 4000000,
        version = ''0.4'',
        eventual_state = (\<lambda>_ _. Some success)\<rparr>"

definition ex0 :: Executor where
  "ex0 = \<lparr>job_max_runtime = 300, map_item_limit = None, storage_prefix = ''pw'',
         storage_config = PStr ''s3'', runtime = PStr ''rt'', runtime_urls = None,
         invoker_config = []\<rparr>"

definition w0 :: world where
  "w0 = \<lparr>trace = [], clock = 0, rand_pos = 0, callsets = 0\<rparr>"

definition p0 :: prepared where
  "p0 = \<lparr>p_callset_id = ''cs00000'', p_func_key = ''pw/cs00000/func'',
         p_data_strs = [], p_host_job_meta = [], p_agg = None\<rparr>"

definition args_cached :: map_args where
  "args_cached = default_map_args\<lparr>module_dependencies_key := Some ''k'',
      exclude_modules := Some [''numpy'']\<rparr>"

definition h0 :: ResponseFuture where
  "h0 = \<lparr>fut_call_id = ''00000'', fut_callset_id = ''cs00000'', fut_invoke_metadata = [],
         fut_storage_path = PStr ''s3'', fut_state = invoked\<rparr>"

definition c_pending :: collab where
  "c_pending = c0\<lparr>eventual_state := (\<lambda>_ _. None)\<rparr>"

definition c_failed :: collab where
  "c_failed = c0\<lparr>eventual_state := (\<lambda>_ _. Some failed)\<rparr>"

definition args_separate :: map_args where
  "args_separate = default_map_args\<lparr>data_all_as_one := False\<rparr>"

definition args_override :: map_args where
  "args_override =
     default_map_args\<lparr>overwrite_invoke_args := Some [(''data_key'', PStr ''elsewhere'')]\<rparr>"

definition c_cancelled :: collab where
  "c_cancelled = c0\<lparr>eventual_state := (\<lambda>_ _. Some cancelled)\<rparr>"

definition args_timestamp :: map_args where
  "args_timestamp =
     default_map_args\<lparr>extra_meta := Some [(''host_submit_time'', PStr ''mine'')]\<rparr>"

section \<open>Aggregation: the ranges in closed form and the round trip\<close>

lemma offset_0: "offset ps 0 = 0"
  by (simp add: offset_def)

lemma offset_Cons_Suc: "offset (p # ps) (Suc i) = int (length p) + offset ps i"
  by (simp add: offset_def)

lemma offset_Suc:
  assumes "i < length ps"
  shows "offset ps (Suc i) = offset ps i + int (length (ps ! i))"
  using assms by (simp add: offset_def take_Suc_conv_app_nth)

lemma offset_all: "offset ps (length ps) = int (length (concat ps))"
  by (simp add: offset_def)

lemma offset_mono:
  assumes "i \<le> j"
  shows "offset ps i \<le> offset ps j"
proof -
  from assms obtain k where j: "j = i + k"
    using le_Suc_ex by blast
  have "take j ps = take i ps @ take k (drop i ps)"
    unfolding j by (simp add: take_add)
  then show ?thesis
    by (simp add: offset_def)
qed

lemma offset_le_total: "offset ps i \<le> int (length (concat ps))"
proof (cases "i \<le> length ps")
  case True
  from offset_mono [OF True, of ps] show ?thesis
    by (simp add: offset_all)
next
  case False
  then show ?thesis
    by (simp add: offset_def)
qed

lemma agg_loop_length: "length (agg_loop ps rs pos) = length rs + length ps"
  by (induction ps arbitrary: rs pos) (simp_all add: Let_def)

lemma agg_loop_nth_old:
  assumes "i < length rs"
  shows "agg_loop ps rs pos ! i = rs ! i"
  using assms
  by (induction ps arbitrary: rs pos) (simp_all add: Let_def nth_append)

lemma agg_loop_nth_new:
  assumes "i < length ps"
  shows "agg_loop ps rs pos ! (length rs + i) =
           (pos + offset ps i, pos + offset ps i + int (length (ps ! i)) - 1)"
  using assms
proof (induction ps arbitrary: rs pos i)
  case Nil
  then show ?case by simp
next
  case (Cons p ps)
  let ?rs = "rs @ [(pos, pos + int (length p) - 1)]"
  show ?case
  proof (cases i)
    case 0
    have "agg_loop ps ?rs (pos + int (length p)) ! length rs = ?rs ! length rs"
      by (rule agg_loop_nth_old) simp
    then show ?thesis
      using 0 by (simp add: Let_def offset_0)
  next
    case (Suc k)
    with Cons.prems have k: "k < length ps"
      by simp
    have "agg_loop ps ?rs (pos + int (length p)) ! (length ?rs + k) =
            (pos + int (length p) + offset ps k,
             pos + int (length p) + offset ps k + int (length (ps ! k)) - 1)"
      by (rule Cons.IH [OF k])
    then show ?thesis
      using Suc by (simp add: Let_def offset_Cons_Suc add.assoc)
  qed
qed

lemma agg_data_range:
  assumes "i < length ps"
  shows "snd (agg_data ps) ! i = (offset ps i, offset ps i + int (length (ps ! i)) - 1)"
  using agg_loop_nth_new [OF assms, of "[]" 0] by (simp add: agg_data_def)

lemma agg_data_count: "length (snd (agg_data ps)) = length ps"
  by (simp add: agg_data_def agg_loop_length)

lemma concat_window:
  assumes "i < length ps"
  shows "take (length (ps ! i)) (drop (length (concat (take i ps))) (concat ps)) = ps ! i"
proof -
  have "ps = take i ps @ ps ! i # drop (Suc i) ps"
    using assms by (rule id_take_nth_drop)
  then have "concat ps = concat (take i ps) @ ps ! i @ concat (drop (Suc i) ps)"
    by (metis concat.simps(2) concat_append)
  then show ?thesis
    by simp
qed

lemma py_slice_window:
  assumes "0 \<le> a" and "a \<le> b" and "b \<le> int (length xs)"
  shows "py_slice xs a b = take (nat (b - a)) (drop (nat a) xs)"
  using assms by (simp add: py_slice_def Let_def min_def)

lemma agg_data_slice:
  assumes "i < length ps"
  shows "py_slice (fst (agg_data ps)) (fst (snd (agg_data ps) ! i))
           (snd (snd (agg_data ps) ! i) + 1) = ps ! i"
proof -
  let ?a = "offset ps i"
  let ?b = "offset ps i + int (length (ps ! i))"
  have a0: "0 \<le> ?a"
    by (simp add: offset_def)
  have ab: "?a \<le> ?b"
    by simp
  have "?b = offset ps (Suc i)"
    using assms by (simp add: offset_Suc)
  then have bn: "?b \<le> int (length (concat ps))"
    by (simp add: offset_le_total)
  have "py_slice (concat ps) ?a ?b = take (nat (?b - ?a)) (drop (nat ?a) (concat ps))"
    using a0 ab bn by (rule py_slice_window)
  also have "\<dots> = take (length (ps ! i)) (drop (length (concat (take i ps))) (concat ps))"
    by (simp add: offset_def)
  also have "\<dots> = ps ! i"
    using assms by (rule concat_window)
  finally have "py_slice (concat ps) ?a (?b - 1 + 1) = ps ! i"
    by simp
  then show ?thesis
    unfolding agg_data_range [OF assms] by (simp add: agg_data_def)
qed

text \<open>
  Claim C2. For every ordered list of byte payloads, \<open>agg_data\<close> returns a blob and
  one range per payload, in submission order; the first range starts at 0, each next
  range starts right after the previous one ends, the last one ends at the last byte of
  the blob (contiguous), an earlier range ends before a later one starts
  (non-overlapping), and slicing the blob from a range's start to its end plus one gives
  back exactly that payload.
\<close>

theorem agg_data_roundtrip:
  "length (snd (agg_data ps)) = length ps \<and>
   (\<forall>i < length ps.
      py_slice (fst (agg_data ps)) (fst (snd (agg_data ps) ! i))
        (snd (snd (agg_data ps) ! i) + 1) = ps ! i) \<and>
   (ps \<noteq> [] \<longrightarrow> fst (snd (agg_data ps) ! 0) = 0 \<and>
      snd (last (snd (agg_data ps))) + 1 = int (length (fst (agg_data ps)))) \<and>
   (\<forall>i. Suc i < length ps \<longrightarrow>
      fst (snd (agg_data ps) ! Suc i) = snd (snd (agg_data ps) ! i) + 1) \<and>
   (\<forall>i j. i < j \<and> j < length ps \<longrightarrow>
      snd (snd (agg_data ps) ! i) < fst (snd (agg_data ps) ! j))"
proof (intro conjI allI impI)
  show "length (snd (agg_data ps)) = length ps"
    by (rule agg_data_count)
next
  fix i assume "i < length ps"
  then show "py_slice (fst (agg_data ps)) (fst (snd (agg_data ps) ! i))
      (snd (snd (agg_data ps) ! i) + 1) = ps ! i"
    by (rule agg_data_slice)
next
  assume "ps \<noteq> []"
  then have "0 < length ps"
    by simp
  from agg_data_range [OF this] show "fst (snd (agg_data ps) ! 0) = 0"
    by (simp add: offset_0)
next
  assume ne: "ps \<noteq> []"
  then have l: "length ps - 1 < length ps"
    by simp
  have "snd (agg_data ps) \<noteq> []"
    using ne agg_data_count [of ps] by auto
  then have "last (snd (agg_data ps)) = snd (agg_data ps) ! (length ps - 1)"
    by (simp add: last_conv_nth agg_data_count)
  then have "snd (last (snd (agg_data ps))) + 1 = offset ps (Suc (length ps - 1))"
    using offset_Suc [OF l] agg_data_range [OF l] by simp
  also have "\<dots> = int (length (concat ps))"
    using ne offset_all [of ps] by simp
  finally show "snd (last (snd (agg_data ps))) + 1 = int (length (fst (agg_data ps)))"
    by (simp add: agg_data_def)
next
  fix i assume si: "Suc i < length ps"
  then have i: "i < length ps"
    by simp
  show "fst (snd (agg_data ps) ! Suc i) = snd (snd (agg_data ps) ! i) + 1"
    using agg_data_range [OF si] agg_data_range [OF i] offset_Suc [OF i] by simp
next
  fix i j assume ij: "i < j \<and> j < length ps"
  then have i: "i < length ps" and j: "j < length ps" and "Suc i \<le> j"
    by simp_all
  then have "offset ps (Suc i) \<le> offset ps j"
    by (simp add: offset_mono)
  then show "snd (snd (agg_data ps) ! i) < fst (snd (agg_data ps) ! j)"
    using agg_data_range [OF i] agg_data_range [OF j] offset_Suc [OF i] by simp
qed

theorem agg_data_roundtrip_witness:
  "agg_data [[1, 2], [], [3]] = ([1, 2, 3], [(0, 1), (2, 1), (2, 2)]) \<and>
   py_slice [1, 2, 3 :: 8 word] 0 (1 + 1) = [1, 2] \<and>
   py_slice [1, 2, 3 :: 8 word] 2 (1 + 1) = [] \<and>
   py_slice [1, 2, 3 :: 8 word] 2 (2 + 1) = [3]"
proof -
  have v: "agg_data [[1, 2], [], [3]] = ([1, 2, 3], [(0, 1), (2, 1), (2, 2)])"
    by (simp add: agg_data_def)
  have "\<forall>i < 3. py_slice [1, 2, 3 :: 8 word] (fst ([(0, 1), (2, 1), (2, 2 :: int)] ! i))
          (snd ([(0, 1), (2, 1), (2 :: int, 2)] ! i) + 1) = [[1, 2], [], [3]] ! i"
    using agg_data_roundtrip [of "[[1, 2], [], [3]]"] unfolding v by simp
  then have "py_slice [1, 2, 3 :: 8 word] 0 (1 + 1) = [1, 2] \<and>
      py_slice [1, 2, 3 :: 8 word] 2 (1 + 1) = [] \<and>
      py_slice [1, 2, 3 :: 8 word] 2 (2 + 1) = [3]"
    by (simp add: All_less_Suc numeral_3_eq_3)
  with v show ?thesis
    by simp
qed

section \<open>Reading a trace\<close>

lemma data_puts_append [simp]: "data_puts (a @ b) = data_puts a @ data_puts b"
  by (simp add: data_puts_def)

lemma func_puts_append [simp]: "func_puts (a @ b) = func_puts a @ func_puts b"
  by (simp add: func_puts_def)

lemma invocations_append [simp]: "invocations (a @ b) = invocations a @ invocations b"
  by (simp add: invocations_def)

lemma observe_simps [simp]:
  "data_puts [] = []" "func_puts [] = []" "invocations [] = []"
  "data_puts (PutData k b # tr) = (k, b) # data_puts tr"
  "data_puts (Serialize os ig # tr) = data_puts tr"
  "data_puts (CreateModData mps # tr) = data_puts tr"
  "data_puts (PutFunc k b # tr) = data_puts tr"
  "data_puts (PutModuleDependencies k b # tr) = data_puts tr"
  "data_puts (Invoke a # tr) = data_puts tr"
  "func_puts (PutFunc k b # tr) = (k, b) # func_puts tr"
  "func_puts (Serialize os ig # tr) = func_puts tr"
  "func_puts (CreateModData mps # tr) = func_puts tr"
  "func_puts (PutData k b # tr) = func_puts tr"
  "func_puts (PutModuleDependencies k b # tr) = func_puts tr"
  "func_puts (Invoke a # tr) = func_puts tr"
  "invocations (Invoke a # tr) = a # invocations tr"
  "invocations (Serialize os ig # tr) = invocations tr"
  "invocations (CreateModData mps # tr) = invocations tr"
  "invocations (PutData k b # tr) = invocations tr"
  "invocations (PutModuleDependencies k b # tr) = invocations tr"
  "invocations (PutFunc k b # tr) = invocations tr"
  by (simp_all add: data_puts_def func_puts_def invocations_def)

section \<open>Call ids are zero-padded sequence numbers\<close>

lemma digit_char_0: "digit_char 0 = CHR ''0''"
  by (simp add: digit_char_def)

lemma digit_char_less:
  assumes "a < b" and "b < 10"
  shows "digit_char a < digit_char b"
proof -
  have b: "b \<in> {0, 1, 2, 3, 4, 5, 6, 7, 8, 9}"
    using assms(2) by auto
  have a: "a \<in> {0, 1, 2, 3, 4, 5, 6, 7, 8, 9}"
    using assms by auto
  show ?thesis
    using a b assms(1) by (auto simp add: digit_char_def)
qed

lemma length_padded: "length (padded w n) = w"
  by (induction w arbitrary: n) simp_all

lemma padded_0: "padded w 0 = replicate w CHR ''0''"
  by (induction w) (simp_all add: digit_char_0 replicate_append_same)

lemma str_nat_small: "n < 10 \<Longrightarrow> str_nat n = [digit_char n]"
  by (simp add: str_nat.simps)

lemma str_nat_large: "\<not> n < 10 \<Longrightarrow> str_nat n = str_nat (n div 10) @ [digit_char (n mod 10)]"
  by (subst str_nat.simps) simp

lemma pad_str_nat:
  assumes "n < 10 ^ Suc w"
  shows "replicate (Suc w - length (str_nat n)) CHR ''0'' @ str_nat n = padded (Suc w) n"
  using assms
proof (induction w arbitrary: n)
  case 0
  then show ?case
    by (simp add: str_nat_small)
next
  case (Suc w)
  show ?case
  proof (cases "n < 10")
    case True
    then show ?thesis
      by (simp add: str_nat_small padded_0 digit_char_0 replicate_append_same)
  next
    case False
    from Suc.prems have "n div 10 < 10 ^ Suc w"
      by (simp add: less_mult_imp_div_less mult.commute)
    from Suc.IH [OF this] show ?thesis
      using False by (simp add: str_nat_large)
  qed
qed

lemma format_05d_padded:
  assumes "i < 100000"
  shows "format_05d i = padded 5 i"
proof -
  have "i < 10 ^ Suc 4"
    using assms by simp
  from pad_str_nat [OF this] show ?thesis
    by (simp add: format_05d_def Let_def)
qed

lemma padded_less:
  assumes "m < n" and "n < 10 ^ w"
  shows "padded w m < padded w n"
  using assms
proof (induction w arbitrary: m n)
  case 0
  then show ?case by simp
next
  case (Suc w)
  have le: "m div 10 \<le> n div 10"
    using Suc.prems(1) by (simp add: div_le_mono)
  show ?case
  proof (cases "m div 10 < n div 10")
    case True
    from Suc.prems(2) have "n div 10 < 10 ^ w"
      by (simp add: less_mult_imp_div_less mult.commute)
    with True have "padded w (m div 10) < padded w (n div 10)"
      by (rule Suc.IH)
    then have "(padded w (m div 10), padded w (n div 10)) \<in> lexord {(u, v). u < v}"
      by (simp add: list_less_def)
    then have "(padded w (m div 10) @ [digit_char (m mod 10)],
                padded w (n div 10) @ [digit_char (n mod 10)]) \<in> lexord {(u, v). u < v}"
      by (rule lexord_sufI) (simp add: length_padded)
    then show ?thesis
      by (simp add: list_less_def)
  next
    case False
    with le have eq: "m div 10 = n div 10"
      by simp
    have "m mod 10 < n mod 10"
    proof (rule ccontr)
      assume "\<not> m mod 10 < n mod 10"
      then have "n mod 10 \<le> m mod 10"
        by simp
      then have "10 * (n div 10) + n mod 10 \<le> 10 * (n div 10) + m mod 10"
        by (rule add_left_mono)
      also have "\<dots> = 10 * (m div 10) + m mod 10"
        by (simp only: eq)
      finally have "n \<le> m"
        by (simp only: mult_div_mod_eq)
      with Suc.prems(1) show False
        by simp
    qed
    then have "digit_char (m mod 10) < digit_char (n mod 10)"
      by (rule digit_char_less) simp
    then have "([digit_char (m mod 10)], [digit_char (n mod 10)]) \<in> lexord {(u, v). u < v}"
      by simp
    then have "(padded w (n div 10) @ [digit_char (m mod 10)],
                padded w (n div 10) @ [digit_char (n mod 10)]) \<in> lexord {(u, v). u < v}"
      by (rule lexord_append_leftI)
    then show ?thesis
      using eq by (simp add: list_less_def)
  qed
qed

lemma submissions_nth:
  assumes "i < N"
  shows "submissions p N ! i = submit p i"
  using assms by (simp add: submissions_def)

text \<open>
  Claim C5, as amended. For every \<^verbatim>\<open>map\<close> call with \<open>N\<close> inputs, one task is
  submitted per input and Call \<open>i\<close> receives the call id \<^verbatim>\<open>"{:05d}".format(i)\<close>. When
  \<open>N\<close> is at most 100000, every call id has exactly 5 characters and the call ids are
  strictly increasing, as strings, with the input index.
\<close>

theorem call_ids_sequential:
  assumes "i < N"
  shows "length (submissions p N) = N \<and>
         t_call_id (submissions p N ! i) = format_05d i \<and>
         (N \<le> 100000 \<longrightarrow>
            length (t_call_id (submissions p N ! i)) = 5 \<and>
            (\<forall>j. i < j \<and> j < N \<longrightarrow>
               t_call_id (submissions p N ! i) < t_call_id (submissions p N ! j)))"
proof (intro conjI impI allI)
  show "length (submissions p N) = N"
    by (simp add: submissions_def)
  show id: "t_call_id (submissions p N ! i) = format_05d i"
    using assms by (simp add: submissions_nth submit_def)
  {
    assume N: "N \<le> 100000"
    with assms have i: "i < 100000"
      by simp
    show "length (t_call_id (submissions p N ! i)) = 5"
      unfolding id format_05d_padded [OF i] by (rule length_padded)
    fix j assume ij: "i < j \<and> j < N"
    with N have j: "j < 100000"
      by simp
    have "padded 5 i < padded 5 j"
      by (rule padded_less) (use ij j in simp_all)
    then show "t_call_id (submissions p N ! i) < t_call_id (submissions p N ! j)"
      using ij by (simp add: submissions_nth submit_def format_05d_padded i j)
  }
qed

text \<open>Three inputs receive the call ids 00000, 00001 and 00002.\<close>

theorem call_ids_sequential_witness:
  "map t_call_id (submissions p0 3) = [''00000'', ''00001'', ''00002''] \<and>
   (''00000'' :: string) < ''00001'' \<and> (''00001'' :: string) < ''00002''"
proof -
  have m: "map t_call_id (submissions p0 3) = [''00000'', ''00001'', ''00002'']"
    by code_simp
  have n0: "submissions p0 3 ! 0 = submit p0 0" "submissions p0 3 ! 1 = submit p0 1"
    "submissions p0 3 ! 2 = submit p0 2"
    by (simp_all add: submissions_nth)
  have c: "t_call_id (submit p0 0) = ''00000''" "t_call_id (submit p0 1) = ''00001''"
    "t_call_id (submit p0 2) = ''00002''"
    by code_simp+
  have le: "(3::nat) \<le> 100000" and i0: "(0::nat) < 3" and i1: "(1::nat) < 3"
    by simp_all
  from call_ids_sequential [OF i0, of p0] le
  have "\<forall>j. 0 < j \<and> j < 3 \<longrightarrow>
      t_call_id (submissions p0 3 ! 0) < t_call_id (submissions p0 3 ! j)"
    by blast
  from this [rule_format, of 1]
  have "t_call_id (submissions p0 3 ! 0) < t_call_id (submissions p0 3 ! 1)"
    by simp
  moreover
  from call_ids_sequential [OF i1, of p0] le
  have "\<forall>j. 1 < j \<and> j < 3 \<longrightarrow>
      t_call_id (submissions p0 3 ! 1) < t_call_id (submissions p0 3 ! j)"
    by blast
  from this [rule_format, of 2]
  have "t_call_id (submissions p0 3 ! 1) < t_call_id (submissions p0 3 ! 2)"
    by simp
  ultimately show ?thesis
    using m unfolding n0 c by simp
qed

text \<open>
  Claim C5 as stated fails beyond 100000 inputs: the format pads to a width of at
  least 5 and does not cut, so Call 100000 receives the six characters 100000, which as
  a string is smaller than the call id 99999 of the Call before it.
\<close>

theorem call_ids_fixed_width_counterexample:
  "length (t_call_id (submissions p0 100001 ! 100000)) = 6 \<and>
   t_call_id (submissions p0 100001 ! 100000) < t_call_id (submissions p0 100001 ! 99999)"
proof -
  have a: "t_call_id (submissions p0 100001 ! 100000) = format_05d 100000"
    by (simp add: submissions_nth submit_def)
  have b: "t_call_id (submissions p0 100001 ! 99999) = format_05d 99999"
    by (simp add: submissions_nth submit_def)
  have "format_05d 100000 = ''100000''" "format_05d 99999 = ''99999''"
    by (simp_all add: format_05d_def str_nat.simps digit_char_def)
  then show ?thesis
    unfolding a b by simp
qed

section \<open>The handles come back in input order\<close>

lemma time_time_trace: "trace (snd (time_time w)) = trace w"
  by (simp add: time_time_def)

lemma choose_runtime_url_trace: "trace (snd (choose_runtime_url c self w)) = trace w"
  by (simp add: choose_runtime_url_def split: option.splits)

lemma invoke_with_keys_fut:
  assumes "invoke_with_keys c self w func_key data_key output_key status_key cancel_key
      callset_id call_id env meta data_byte_range cached host_job_meta max_runtime overwrite
      = (Inr fut, w')"
  shows "fut_call_id fut = call_id \<and> fut_callset_id fut = callset_id \<and> fut_state fut = invoked"
  using assms
  by (auto simp add: invoke_with_keys_def Let_def split_def split: sum.splits)

lemma invoke_fut:
  assumes "invoke c self args w t = (Inr fut, w')"
  shows "fut_call_id fut = t_call_id t \<and> fut_callset_id fut = t_callset_id t \<and>
         fut_state fut = invoked"
  using assms unfolding invoke_def Let_def split_def
  by (rule invoke_with_keys_fut)

lemma run_pool_cells:
  assumes "run_pool f tasks sched cells w = (cells', w')"
    and "length cells = length tasks"
    and "\<And>i r. i < length tasks \<Longrightarrow> cells ! i = Some r \<Longrightarrow> P i r"
    and "\<And>i v. i < length tasks \<Longrightarrow> P i (fst (f v (tasks ! i)))"
  shows "length cells' = length tasks \<and>
         (\<forall>i r. i < length tasks \<longrightarrow> cells' ! i = Some r \<longrightarrow> P i r)"
  using assms(1-3)
proof (induction sched arbitrary: cells w)
  case Nil
  then show ?case by auto
next
  case (Cons k sched)
  show ?case
  proof (cases "k < length tasks \<and> k < length cells \<and> cells ! k = None")
    case True
    obtain r v where f: "f w (tasks ! k) = (r, v)"
      by (cases "f w (tasks ! k)")
    from Cons.prems(1) True f
    have run: "run_pool f tasks sched (cells[k := Some r]) v = (cells', w')"
      by simp
    have P: "P k r"
      using assms(4) [of k w] True f by simp
    show ?thesis
    proof (rule Cons.IH [OF run])
      show "length (cells[k := Some r]) = length tasks"
        using Cons.prems(2) by simp
    next
      fix i q
      assume "i < length tasks" and "cells[k := Some r] ! i = Some q"
      then show "P i q"
        using Cons.prems(2,3) P by (cases "i = k") auto
    qed
  next
    case False
    with Cons.prems(1) have "run_pool f tasks sched cells w = (cells', w')"
      by auto
    then show ?thesis
      using Cons.prems(2,3) by (rule Cons.IH)
  qed
qed

lemma get_all_Inr:
  assumes "get_all cells = Some (Inr xs)"
  shows "length xs = length cells \<and> (\<forall>i < length cells. cells ! i = Some (Inr (xs ! i)))"
  using assms
proof (induction cells arbitrary: xs rule: get_all.induct)
  case 1
  then show ?case by simp
next
  case (2 cs)
  then show ?case by simp
next
  case (3 e cs)
  then show ?case by simp
next
  case (4 x cs)
  from "4.prems" obtain ys where ys: "get_all cs = Some (Inr ys)" and xs: "xs = x # ys"
    by (auto split: option.splits sum.splits)
  from "4.IH" [OF ys] show ?case
    unfolding xs by (auto simp add: nth_Cons split: nat.splits)
qed

lemma map_dispatch_handles:
  assumes "map_dispatch c self sched w func data args = Some (Inr res, w')"
  shows "length res = length data \<and>
         (\<forall>i < length data. fut_call_id (res ! i) = format_05d i \<and> fut_state (res ! i) = invoked)"
proof -
  let ?P = "\<lambda>(i::nat) (r::error + ResponseFuture). \<forall>fut. r = Inr fut \<longrightarrow> fut_call_id fut = format_05d i \<and> fut_state fut = invoked"
  from assms obtain p w1 where prep: "map_prepare c self w func data args = (Inr p, w1)"
    by (auto simp add: map_dispatch_def split: if_splits prod.splits sum.splits)
  let ?tasks = "submissions p (length data)"
  obtain cells w2 where run:
    "run_pool (invoke c self args) ?tasks sched (replicate (length data) None) w1 = (cells, w2)"
    by (cases "run_pool (invoke c self args) ?tasks sched (replicate (length data) None) w1")
  from assms prep run have get: "get_all cells = Some (Inr res)"
    by (auto simp add: map_dispatch_def Let_def split: if_splits option.splits)
  have len: "length ?tasks = length data"
    by (simp add: submissions_def)
  have cells: "length cells = length ?tasks \<and>
      (\<forall>i r. i < length ?tasks \<longrightarrow> cells ! i = Some r \<longrightarrow> ?P i r)"
  proof (rule run_pool_cells [OF run])
    show "length (replicate (length data) None) = length ?tasks"
      by (simp add: len)
  next
    fix i and r :: "error + ResponseFuture"
    assume "i < length ?tasks" and "replicate (length data) None ! i = Some r"
    then show "?P i r"
      by (simp add: len)
  next
    fix i v
    assume i: "i < length ?tasks"
    show "?P i (fst (invoke c self args v (?tasks ! i)))"
    proof (intro allI impI)
      fix fut
      assume "fst (invoke c self args v (?tasks ! i)) = Inr fut"
      then have "invoke c self args v (?tasks ! i) =
          (Inr fut, snd (invoke c self args v (?tasks ! i)))"
        by (metis prod.collapse)
      from invoke_fut [OF this] i
      show "fut_call_id fut = format_05d i \<and> fut_state fut = invoked"
        by (simp add: submissions_def submit_def)
    qed
  qed
  from get_all_Inr [OF get] cells len show ?thesis
    by auto
qed

text \<open>
  Claim C1. For every call to \<^verbatim>\<open>map\<close> with \<open>N\<close> inputs that returns normally, under
  every schedule of the worker pool, the returned list has length \<open>N\<close> and its
  \<open>i\<close>-th element is the handle of the \<open>i\<close>-th input: it carries the call id
  \<^verbatim>\<open>"{:05d}".format(i)\<close> and is in state invoked.
\<close>

theorem map_returns_handles_in_input_order:
  assumes "map_exec c self sched w func iterdata args = Some (Inr res, w')"
  shows "length res = length iterdata \<and>
         (\<forall>i < length iterdata.
            fut_call_id (res ! i) = format_05d i \<and> fut_state (res ! i) = invoked)"
proof (cases "iterdata = []")
  case True
  with assms show ?thesis
    by (simp add: map_exec_def)
next
  case False
  with assms have "map_dispatch c self sched w func iterdata args = Some (Inr res, w')"
    by (auto simp add: map_exec_def Let_def split: option.splits if_splits)
  then show ?thesis
    by (rule map_dispatch_handles)
qed

text \<open>
  Two inputs whose tasks complete in reverse order: the call returns, and the handles
  are in input order.
\<close>

theorem map_returns_handles_in_input_order_witness:
  "\<exists>res w'. map_exec c0 ex0 [1, 0] w0 (Obj 0) [Obj 1, Obj 2] default_map_args = Some (Inr res, w') \<and>
     length res = 2 \<and> fut_call_id (res ! 0) = ''00000'' \<and> fut_call_id (res ! 1) = ''00001''"
proof -
  have "case map_exec c0 ex0 [1, 0] w0 (Obj 0) [Obj 1, Obj 2] default_map_args of
          Some (Inr res, w') \<Rightarrow> True | _ \<Rightarrow> False"
    by code_simp
  then obtain res w' where
    r: "map_exec c0 ex0 [1, 0] w0 (Obj 0) [Obj 1, Obj 2] default_map_args = Some (Inr res, w')"
    by (auto split: option.splits prod.splits sum.splits)
  have f: "format_05d 0 = ''00000''" "format_05d 1 = ''00001''"
    by code_simp+
  from map_returns_handles_in_input_order [OF r]
  have "length res = 2 \<and> fut_call_id (res ! 0) = format_05d 0 \<and>
      fut_call_id (res ! 1) = format_05d 1"
    by simp
  with r f show ?thesis
    by simp
qed

section \<open>Empty input and the item limit\<close>

text \<open>
  Claim C3. \<^verbatim>\<open>map(func, [])\<close> returns the empty list and leaves the world as it was:
  no serialization, no storage operation, no backend invocation, under every schedule
  and for every other argument.
\<close>

theorem map_empty_input:
  "map_exec c self sched w func [] args = Some (Inr [], w)"
  by (simp add: map_exec_def)

text \<open>
  Claim C4. If a map item limit is configured (a maximum item count, so not negative)
  and \<^verbatim>\<open>map\<close> is called with an input list whose length exceeds that limit,
  \<^verbatim>\<open>map\<close> raises the \<^verbatim>\<open>ValueError\<close> and leaves the world as it was: nothing has
  been packaged, stored or invoked.
\<close>

theorem map_item_limit_rejects:
  assumes "map_item_limit self = Some limit"
    and "0 \<le> limit"
    and "int (length iterdata) > limit"
  shows "map_exec c self sched w func iterdata args =
           Some (Inl (ValueError_MapItemLimit (length iterdata) limit), w)"
proof -
  from assms(2,3) have "iterdata \<noteq> []"
    by auto
  with assms(1,3) show ?thesis
    by (simp add: map_exec_def)
qed

text \<open>Two inputs under a limit of one.\<close>

theorem map_item_limit_rejects_witness:
  "map_exec c0 (ex0\<lparr>map_item_limit := Some 1\<rparr>) [0, 1] w0 (Obj 0) [Obj 1, Obj 2] default_map_args =
     Some (Inl (ValueError_MapItemLimit 2 1), w0)"
proof -
  have "map_item_limit (ex0\<lparr>map_item_limit := Some 1\<rparr>) = Some 1"
    by simp
  moreover have "(0::int) \<le> 1" and "int (length [Obj 1, Obj 2]) > 1"
    by simp_all
  ultimately show ?thesis
    using map_item_limit_rejects [of "ex0\<lparr>map_item_limit := Some 1\<rparr>" 1 "[Obj 1, Obj 2]"
        c0 "[0, 1]" w0 "Obj 0" default_map_args]
    by simp
qed

section \<open>The two packaging modes exclude each other\<close>

text \<open>
  Claim C9. \<^verbatim>\<open>parse_module_dependencies\<close> fails whenever both the load-from-shared-storage
  mode and the sync-to-shared-storage mode are requested, with the world as it was (no
  serialization, no storage operation); with a hint given, the failure is the assertion
  on the two modes. When at most one of the modes is requested, that assertion does not
  fail, and with a hint given the method returns.
\<close>

theorem parse_module_dependencies_modes:
  "(from_shared \<and> sync_to_shared \<longrightarrow>
      (\<exists>err. parse_module_dependencies c self w func hint from_shared sync_to_shared = (Inl err, w)) \<and>
      (hint \<noteq> None \<longrightarrow>
         parse_module_dependencies c self w func hint from_shared sync_to_shared =
           (Inl AssertionError_modes, w))) \<and>
   (\<not> (from_shared \<and> sync_to_shared) \<longrightarrow>
      fst (parse_module_dependencies c self w func hint from_shared sync_to_shared)
        \<noteq> Inl AssertionError_modes \<and>
      (hint \<noteq> None \<longrightarrow>
         fst (parse_module_dependencies c self w func hint from_shared sync_to_shared) = Inr ()))"
  by (cases hint)
     (auto simp add: parse_module_dependencies_def serializer_def Let_def split_def
        split: list.splits)

text \<open>The four combinations of the two modes, with a hint.\<close>

theorem parse_module_dependencies_modes_witness:
  "parse_module_dependencies c0 ex0 w0 (Obj 0) (Some ''k'') True True = (Inl AssertionError_modes, w0) \<and>
   fst (parse_module_dependencies c0 ex0 w0 (Obj 0) (Some ''k'') False True) = Inr () \<and>
   fst (parse_module_dependencies c0 ex0 w0 (Obj 0) (Some ''k'') True False) = Inr () \<and>
   fst (parse_module_dependencies c0 ex0 w0 (Obj 0) (Some ''k'') False False) = Inr ()"
  using parse_module_dependencies_modes [of True True c0 ex0 w0 "Obj 0" "Some ''k''"]
    parse_module_dependencies_modes [of False True c0 ex0 w0 "Obj 0" "Some ''k''"]
    parse_module_dependencies_modes [of True False c0 ex0 w0 "Obj 0" "Some ''k''"]
    parse_module_dependencies_modes [of False False c0 ex0 w0 "Obj 0" "Some ''k''"]
  by simp

section \<open>The cached-dependency path with excluded modules\<close>

lemma map_prepare_unbound:
  assumes "module_dependencies_key args = Some key"
    and "exclude_modules args = Some (m # ms)"
  shows "\<exists>w'. map_prepare c self w func data args = (Inl (UnboundLocalError ''mod_paths''), w') \<and>
           trace w' = trace w @ Serialize (func # data) True #
             (if aggregates c args data
              then [PutData (agg_key_of c self w) (concat (map (dumps c) data))] else [])"
  using assms
  by (simp add: map_prepare_def serializer_def emit_def time_time_def read_local_def
      aggregates_def agg_key_of_def callset_of_def agg_data_def Let_def split_def)

text \<open>
  Claim C10, as amended. For every call to \<^verbatim>\<open>map\<close> with a non-empty input list
  within the configured item limit, a pool size of at least 1, a
  \<open>module_dependencies_key\<close> that is not \<^verbatim>\<open>None\<close> and a non-empty \<open>exclude_modules\<close>
  list, \<^verbatim>\<open>map\<close> raises the unbound-name error for \<open>mod_paths\<close>. By then it has
  serialized the inputs and, when the payloads are aggregated, uploaded the aggregated
  blob; it has uploaded no function package and invoked no Call.
\<close>

theorem map_unbound_mod_paths:
  assumes "iterdata \<noteq> []"
    and "within_limit self iterdata"
    and "1 \<le> invoke_pool_threads args"
    and "module_dependencies_key args = Some key"
    and "exclude_modules args = Some (m # ms)"
  shows "\<exists>w'. map_exec c self sched w func iterdata args =
             Some (Inl (UnboundLocalError ''mod_paths''), w') \<and>
           trace w' = trace w @ Serialize (func # iterdata) True #
             (if aggregates c args iterdata
              then [PutData (agg_key_of c self w) (concat (map (dumps c) iterdata))] else []) \<and>
           func_puts (trace w') = func_puts (trace w) \<and>
           invocations (trace w') = invocations (trace w)"
proof -
  from map_prepare_unbound [OF assms(4,5)] obtain w' where
    p: "map_prepare c self w func iterdata args = (Inl (UnboundLocalError ''mod_paths''), w')"
    and t: "trace w' = trace w @ Serialize (func # iterdata) True #
             (if aggregates c args iterdata
              then [PutData (agg_key_of c self w) (concat (map (dumps c) iterdata))] else [])"
    by blast
  have "map_dispatch c self sched w func iterdata args =
      Some (Inl (UnboundLocalError ''mod_paths''), w')"
    using assms(3) p by (simp add: map_dispatch_def)
  then have "map_exec c self sched w func iterdata args =
      Some (Inl (UnboundLocalError ''mod_paths''), w')"
    using assms(1,2) by (simp add: map_exec_def within_limit_def split: option.splits)
  with t show ?thesis
    by simp
qed

text \<open>Two inputs, a cached dependency key and one excluded module.\<close>

theorem map_unbound_mod_paths_witness:
  "\<exists>w'. map_exec c0 ex0 [1, 0] w0 (Obj 0) [Obj 1, Obj 2] args_cached =
            Some (Inl (UnboundLocalError ''mod_paths''), w') \<and>
         trace w' = [Serialize [Obj 0, Obj 1, Obj 2] True, PutData ''pw/cs00000/aggdata'' [7, 7, 7]]"
proof -
  have a: "[Obj 1, Obj 2] \<noteq> []" "within_limit ex0 [Obj 1, Obj 2]"
    "1 \<le> invoke_pool_threads args_cached"
    "module_dependencies_key args_cached = Some ''k''"
    "exclude_modules args_cached = Some [''numpy'']"
    by (simp_all add: within_limit_def ex0_def args_cached_def default_map_args_def)
  have g: "aggregates c0 args_cached [Obj 1, Obj 2]"
    by (simp add: aggregates_def c0_def args_cached_def default_map_args_def)
  have k: "agg_key_of c0 ex0 w0 = ''pw/cs00000/aggdata''"
    by code_simp
  have d: "concat (map (dumps c0) [Obj 1, Obj 2]) = [7, 7, 7]"
    by code_simp
  have t0: "trace w0 = []"
    by (simp add: w0_def)
  from map_unbound_mod_paths [OF a, of c0 "[1, 0]" w0 "Obj 0"]
  show ?thesis
    unfolding k d t0 using g by auto
qed

text \<open>
  Claim C10 as stated fails when the input exceeds the configured item limit: the
  limit test comes first and \<^verbatim>\<open>map\<close> raises its \<^verbatim>\<open>ValueError\<close>, not the unbound-name
  error.
\<close>

theorem map_unbound_mod_paths_limit_counterexample:
  "[Obj 1, Obj 2] \<noteq> [] \<and> module_dependencies_key args_cached \<noteq> None \<and>
   exclude_modules args_cached = Some [''numpy''] \<and>
   map_exec c0 (ex0\<lparr>map_item_limit := Some 1\<rparr>) [1, 0] w0 (Obj 0) [Obj 1, Obj 2] args_cached =
     Some (Inl (ValueError_MapItemLimit 2 1), w0)"
  by (simp add: map_exec_def args_cached_def default_map_args_def)

section \<open>Merging caller metadata into the argument record\<close>

lemma build_arg_dict_keys:
  "map fst (build_arg_dict c self func_key data_key output_key status_key cancel_key callset_id
      max_runtime data_byte_range call_id cached runtime_url) = required_fields"
  by (simp add: build_arg_dict_def required_fields_def)

lemma update_fresh:
  assumes "k \<notin> fst ` set d"
  shows "AList.update k v d = d @ [(k, v)]"
  using assms by (induction d) auto

lemma merge_extra_meta_ok:
  assumes "distinct (map fst m)" and "fst ` set m \<inter> fst ` set d = {}"
  shows "merge_extra_meta m d = Inr (d @ m)"
  using assms
proof (induction m arbitrary: d)
  case Nil
  then show ?case by simp
next
  case (Cons kv m)
  obtain k v where kv: "kv = (k, v)"
    by (cases kv)
  from Cons.prems kv have fresh: "k \<notin> fst ` set d"
    by auto
  have "merge_extra_meta m (d @ [(k, v)]) = Inr ((d @ [(k, v)]) @ m)"
    using Cons.prems kv by (intro Cons.IH) auto
  then show ?case
    using fresh kv by (simp add: update_fresh)
qed

lemma merge_extra_meta_collides:
  assumes "distinct (map fst m)" and "fst ` set m \<inter> fst ` set d \<noteq> {}"
  shows "\<exists>k \<in> fst ` set m \<inter> fst ` set d. merge_extra_meta m d = Inl (ValueError_KeyAlreadyInDict k)"
  using assms
proof (induction m arbitrary: d)
  case Nil
  then show ?case by simp
next
  case (Cons kv m)
  obtain k v where kv: "kv = (k, v)"
    by (cases kv)
  show ?case
  proof (cases "k \<in> fst ` set d")
    case True
    then show ?thesis
      using kv by auto
  next
    case False
    have d: "distinct (map fst m)" and km: "k \<notin> fst ` set m"
      using Cons.prems(1) kv by auto
    have "fst ` set m \<inter> fst ` set (d @ [(k, v)]) \<noteq> {}"
      using Cons.prems(2) False kv by auto
    from Cons.IH [OF d this] obtain k' where
      k': "k' \<in> fst ` set m" "k' \<in> fst ` set (d @ [(k, v)])"
      and e: "merge_extra_meta m (d @ [(k, v)]) = Inl (ValueError_KeyAlreadyInDict k')"
      by blast
    from k' km have "k' \<in> fst ` set d"
      by auto
    with k' e False kv show ?thesis
      by (auto simp add: update_fresh)
  qed
qed

lemma dict_update_other:
  assumes "k \<notin> fst ` set ov"
  shows "map_of (dict_update d ov) k = map_of d k"
  using assms unfolding dict_update_def
  by (induction ov arbitrary: d) (auto simp add: update_conv')

lemma arg_dict_env_keys:
  "fst ` set (case env of None \<Rightarrow> build_arg_dict c self func_key data_key output_key status_key
        cancel_key callset_id max_runtime data_byte_range call_id cached runtime_url
      | Some e \<Rightarrow> AList.update ''extra_env'' (PDict e)
         (build_arg_dict c self func_key data_key output_key status_key
           cancel_key callset_id max_runtime data_byte_range call_id cached runtime_url))
   = reserved_keys env"
proof -
  have "fst ` set (build_arg_dict c self func_key data_key output_key status_key
        cancel_key callset_id max_runtime data_byte_range call_id cached runtime_url)
      = set required_fields"
    using build_arg_dict_keys [of c self func_key data_key output_key status_key
        cancel_key callset_id max_runtime data_byte_range call_id cached runtime_url]
    by (metis set_map)
  then show ?thesis
    by (cases env) (simp_all add: reserved_keys_def dom_update)
qed

lemma merged_entry:
  assumes "distinct (map fst m)" and "(k, v) \<in> set m" and "k \<notin> fst ` set d"
  shows "map_of (d @ m) k = Some v"
proof -
  have "map_of d k = None"
    using assms(3) by (simp add: map_of_eq_None_iff)
  moreover have "map_of m k = Some v"
    using assms(1,2) by simp
  ultimately show ?thesis
    by (simp add: map_add_def)
qed

text \<open>
  What the check of line 122 does for metadata with distinct keys: the merge raises
  exactly when a metadata key is in the record at that point, that is, is one of the
  fourteen fields of the literal or, when \<open>extra_env\<close> is given, its key; it raises
  before the backend is invoked. Otherwise the invocation goes ahead and the record
  sent holds every entry whose key is neither \<open>host_submit_time\<close> nor a key of the
  override map.
\<close>

lemma merge_checks_present_keys:
  assumes "distinct (map fst meta)"
  shows
    "((\<exists>k \<in> fst ` set meta. k \<in> reserved_keys env) \<longrightarrow>
        (\<exists>k w'. invoke_with_keys c self w func_key data_key output_key status_key cancel_key
             callset_id call_id env (Some meta) data_byte_range cached host_job_meta
             max_runtime overwrite = (Inl (ValueError_KeyAlreadyInDict k), w') \<and>
           k \<in> fst ` set meta \<and> k \<in> reserved_keys env \<and> trace w' = trace w)) \<and>
     ((\<forall>k \<in> fst ` set meta. k \<notin> reserved_keys env) \<longrightarrow>
        (\<exists>fut w' sent. invoke_with_keys c self w func_key data_key output_key status_key
             cancel_key callset_id call_id env (Some meta) data_byte_range cached host_job_meta
             max_runtime overwrite = (Inr fut, w') \<and>
           trace w' = trace w @ [Invoke sent] \<and>
           (\<forall>(k, v) \<in> set meta. k \<noteq> ''host_submit_time'' \<longrightarrow> \<not> overridden overwrite k \<longrightarrow>
              map_of sent k = Some v)))"
proof (intro conjI impI)
  let ?url = "fst (choose_runtime_url c self w)"
  let ?w1 = "snd (choose_runtime_url c self w)"
  let ?base = "build_arg_dict c self func_key data_key output_key status_key cancel_key
      callset_id max_runtime data_byte_range call_id cached ?url"
  let ?d = "case env of None \<Rightarrow> ?base | Some e \<Rightarrow> AList.update ''extra_env'' (PDict e) ?base"
  have keys: "fst ` set ?d = reserved_keys env"
    by (rule arg_dict_env_keys)
  have w1: "trace ?w1 = trace w"
    by (rule choose_runtime_url_trace)
  {
    assume "\<exists>k \<in> fst ` set meta. k \<in> reserved_keys env"
    then have "fst ` set meta \<inter> fst ` set ?d \<noteq> {}"
      unfolding keys by blast
    from merge_extra_meta_collides [OF assms this] obtain k where
      k: "k \<in> fst ` set meta" "k \<in> reserved_keys env"
      and e: "merge_extra_meta meta ?d = Inl (ValueError_KeyAlreadyInDict k)"
      unfolding keys by blast
    have "invoke_with_keys c self w func_key data_key output_key status_key cancel_key
             callset_id call_id env (Some meta) data_byte_range cached host_job_meta
             max_runtime overwrite = (Inl (ValueError_KeyAlreadyInDict k), ?w1)"
      using e by (simp add: invoke_with_keys_def Let_def split_def)
    with k w1
    show "\<exists>k w'. invoke_with_keys c self w func_key data_key output_key status_key cancel_key
             callset_id call_id env (Some meta) data_byte_range cached host_job_meta
             max_runtime overwrite = (Inl (ValueError_KeyAlreadyInDict k), w') \<and>
           k \<in> fst ` set meta \<and> k \<in> reserved_keys env \<and> trace w' = trace w"
      by blast
  }
  {
    assume none: "\<forall>k \<in> fst ` set meta. k \<notin> reserved_keys env"
    then have disj: "fst ` set meta \<inter> fst ` set ?d = {}"
      unfolding keys by blast
    have m: "merge_extra_meta meta ?d = Inr (?d @ meta)"
      using assms disj by (rule merge_extra_meta_ok)
    let ?t = "clock ?w1"
    let ?a = "AList.update ''host_submit_time'' (PTime ?t) (?d @ meta)"
    let ?sent = "case overwrite of None \<Rightarrow> ?a | Some ov \<Rightarrow> dict_update ?a ov"
    have "\<exists>fut w'. invoke_with_keys c self w func_key data_key output_key status_key cancel_key
             callset_id call_id env (Some meta) data_byte_range cached host_job_meta
             max_runtime overwrite = (Inr fut, w') \<and> trace w' = trace w @ [Invoke ?sent]"
      using m w1
      by (cases overwrite) (simp_all add: invoke_with_keys_def Let_def split_def time_time_def emit_def)
    moreover have "\<forall>(k, v) \<in> set meta. k \<noteq> ''host_submit_time'' \<longrightarrow>
        \<not> overridden overwrite k \<longrightarrow> map_of ?sent k = Some v"
    proof (intro ballI, clarify)
      fix k v
      assume kv: "(k, v) \<in> set meta" and h: "k \<noteq> ''host_submit_time''"
        and o: "\<not> overridden overwrite k"
      from kv none have "k \<notin> fst ` set ?d"
        unfolding keys by force
      with assms kv have "map_of (?d @ meta) k = Some v"
        by (intro merged_entry)
      then have a: "map_of ?a k = Some v"
        using h by (simp add: update_conv')
      show "map_of ?sent k = Some v"
      proof (cases overwrite)
        case None
        with a show ?thesis by simp
      next
        case (Some ov)
        with o have "k \<notin> fst ` set ov"
          by (simp add: overridden_def)
        then have "map_of (dict_update ?a ov) k = map_of ?a k"
          by (rule dict_update_other)
        with a Some show ?thesis by simp
      qed
    qed
    ultimately
    show "\<exists>fut w' sent. invoke_with_keys c self w func_key data_key output_key status_key
             cancel_key callset_id call_id env (Some meta) data_byte_range cached host_job_meta
             max_runtime overwrite = (Inr fut, w') \<and>
           trace w' = trace w @ [Invoke sent] \<and>
           (\<forall>(k, v) \<in> set meta. k \<noteq> ''host_submit_time'' \<longrightarrow> \<not> overridden overwrite k \<longrightarrow>
              map_of sent k = Some v)"
      by blast
  }
qed

text \<open>
  Claim C6. Merging caller metadata into the argument record must fail whenever a
  metadata key collides with a required field of the record, before the backend is
  invoked. The check rejects a key such as \<open>data_key\<close>. The submission timestamp is a
  required field too, but \<open>host_submit_time\<close> is set at line 127, after the check of
  line 122: metadata under that key is not rejected, the backend is invoked, and the
  caller's entry is replaced by the submit time. This holds for the bare invocation and
  for a \<^verbatim>\<open>map\<close> call with that metadata.
\<close>

theorem metadata_host_submit_time_unchecked:
  "fst (invoke_with_keys c0 ex0 w0 ''f'' ''d'' ''o'' ''s'' ''x'' ''cs'' ''00000'' None
          (Some [(''data_key'', PStr ''mine'')]) PNone True [] 300 None) =
     Inl (ValueError_KeyAlreadyInDict ''data_key'') \<and>
   (case invoke_with_keys c0 ex0 w0 ''f'' ''d'' ''o'' ''s'' ''x'' ''cs'' ''00000'' None
           (Some [(''host_submit_time'', PStr ''mine'')]) PNone True [] 300 None of
      (Inr fut, w') \<Rightarrow>
         map (\<lambda>sent. map_of sent ''host_submit_time'') (invocations (trace w')) = [Some (PTime 0)]
    | (Inl err, w') \<Rightarrow> False) \<and>
   (case map_exec c0 ex0 [0] w0 (Obj 0) [Obj 1] args_timestamp of
      Some (Inr res, w') \<Rightarrow>
         length res = 1 \<and>
         map (\<lambda>sent. map_of sent ''host_submit_time'') (invocations (trace w')) = [Some (PTime 7)]
    | _ \<Rightarrow> False)"
proof (intro conjI)
  show "fst (invoke_with_keys c0 ex0 w0 ''f'' ''d'' ''o'' ''s'' ''x'' ''cs'' ''00000'' None
          (Some [(''data_key'', PStr ''mine'')]) PNone True [] 300 None) =
     Inl (ValueError_KeyAlreadyInDict ''data_key'')"
    by code_simp
  show "case invoke_with_keys c0 ex0 w0 ''f'' ''d'' ''o'' ''s'' ''x'' ''cs'' ''00000'' None
           (Some [(''host_submit_time'', PStr ''mine'')]) PNone True [] 300 None of
      (Inr fut, w') \<Rightarrow>
         map (\<lambda>sent. map_of sent ''host_submit_time'') (invocations (trace w')) = [Some (PTime 0)]
    | (Inl err, w') \<Rightarrow> False"
    by code_simp
  show "case map_exec c0 ex0 [0] w0 (Obj 0) [Obj 1] args_timestamp of
      Some (Inr res, w') \<Rightarrow>
         length res = 1 \<and>
         map (\<lambda>sent. map_of sent ''host_submit_time'') (invocations (trace w')) = [Some (PTime 7)]
    | _ \<Rightarrow> False"
    by code_simp
qed

section \<open>reduce waits for its inputs\<close>

lemma wait_blocks:
  "wait c fs = None \<longleftrightarrow> (\<exists>f \<in> set fs. handle_outcome c f = None)"
  by (auto simp add: wait_def list_ex_iff split: option.splits)

lemma find_SomeD:
  assumes "find P xs = Some x"
  shows "x \<in> set xs \<and> P x"
  using assms by (induction xs) (auto split: if_splits)

lemma wait_raises:
  "(\<exists>err. wait c fs = Some (Inl err)) \<longleftrightarrow>
     (\<forall>f \<in> set fs. handle_outcome c f \<noteq> None) \<and>
     (\<exists>f \<in> set fs. handle_outcome c f \<noteq> Some success)"
proof (cases "find (\<lambda>f. handle_outcome c f \<noteq> Some success) fs")
  case None
  then have "\<not> (\<exists>f \<in> set fs. handle_outcome c f \<noteq> Some success)"
    by (simp add: find_None_iff)
  with None show ?thesis
    by (auto simp add: wait_def list_ex_iff)
next
  case (Some g)
  from find_SomeD [OF this] have "\<exists>f \<in> set fs. handle_outcome c f \<noteq> Some success"
    by blast
  with Some show ?thesis
    by (auto simp add: wait_def list_ex_iff)
qed

lemma wait_returns:
  "wait c fs = Some (Inr ()) \<longleftrightarrow> (\<forall>f \<in> set fs. handle_outcome c f = Some success)"
proof -
  have "wait c fs = Some (Inr ()) \<longleftrightarrow> wait c fs \<noteq> None \<and> \<not> (\<exists>err. wait c fs = Some (Inl err))"
  proof (cases "wait c fs")
    case None
    then show ?thesis by simp
  next
    case (Some x)
    then show ?thesis by (cases x) simp_all
  qed
  also have "\<dots> \<longleftrightarrow> \<not> (\<exists>f \<in> set fs. handle_outcome c f = None) \<and>
      \<not> ((\<forall>f \<in> set fs. handle_outcome c f \<noteq> None) \<and>
         (\<exists>f \<in> set fs. handle_outcome c f \<noteq> Some success))"
    by (simp only: wait_blocks wait_raises)
  also have "\<dots> \<longleftrightarrow> (\<forall>f \<in> set fs. handle_outcome c f = Some success)"
    by auto
  finally show ?thesis .
qed

text \<open>
  Claim C8. \<^verbatim>\<open>reduce\<close> waits before it builds anything: while a supplied handle
  never reaches a terminal state it does not return; when all handles are terminal and
  one of them is not successful (it failed, or was cancelled), the failure is raised to
  the caller with the world as it was, so no reduction closure has been serialized and
  nothing has been dispatched; when every handle is in the terminal successful state it
  is the dispatch of the reduction closure over the handles. Whenever \<^verbatim>\<open>reduce\<close>
  has left a mark on the world, every supplied handle is in the terminal successful
  state.
\<close>

theorem reduce_waits_first:
  "((\<exists>f \<in> set futs. handle_outcome c f = None) \<longrightarrow>
      reduce c self sched w function futs env meta = None) \<and>
   ((\<forall>f \<in> set futs. handle_outcome c f \<noteq> None) \<and>
    (\<exists>f \<in> set futs. handle_outcome c f \<noteq> Some success) \<longrightarrow>
      (\<exists>err. reduce c self sched w function futs env meta = Some (Inl err, w))) \<and>
   ((\<forall>f \<in> set futs. handle_outcome c f = Some success) \<longrightarrow>
      reduce c self sched w function futs env meta =
        call_async c self sched w (ReduceFunc function) (FutureList futs) env meta) \<and>
   (\<forall>r w'. reduce c self sched w function futs env meta = Some (r, w') \<and> trace w' \<noteq> trace w \<longrightarrow>
      (\<forall>f \<in> set futs. handle_outcome c f = Some success))"
proof (intro conjI impI allI)
  assume "\<exists>f \<in> set futs. handle_outcome c f = None"
  then have "wait c futs = None"
    by (simp add: wait_blocks)
  then show "reduce c self sched w function futs env meta = None"
    by (simp add: reduce_def)
next
  assume "(\<forall>f \<in> set futs. handle_outcome c f \<noteq> None) \<and>
    (\<exists>f \<in> set futs. handle_outcome c f \<noteq> Some success)"
  then obtain err where "wait c futs = Some (Inl err)"
    using wait_raises [of c futs] by blast
  then show "\<exists>err. reduce c self sched w function futs env meta = Some (Inl err, w)"
    by (simp add: reduce_def)
next
  assume "\<forall>f \<in> set futs. handle_outcome c f = Some success"
  then have "wait c futs = Some (Inr ())"
    by (simp add: wait_returns)
  then show "reduce c self sched w function futs env meta =
      call_async c self sched w (ReduceFunc function) (FutureList futs) env meta"
    by (simp add: reduce_def)
next
  fix r w'
  assume a: "reduce c self sched w function futs env meta = Some (r, w') \<and> trace w' \<noteq> trace w"
  have "wait c futs = Some (Inr ())"
  proof (cases "wait c futs")
    case None
    with a show ?thesis
      by (simp add: reduce_def)
  next
    case (Some x)
    with a show ?thesis
      by (cases x) (auto simp add: reduce_def)
  qed
  then show "\<forall>f \<in> set futs. handle_outcome c f = Some success"
    by (simp add: wait_returns)
qed

text \<open>One handle that stays pending, fails, is cancelled, or succeeds.\<close>

theorem reduce_waits_first_witness:
  "reduce c_pending ex0 [0] w0 (Obj 0) [h0] None None = None \<and>
   (\<exists>err. reduce c_failed ex0 [0] w0 (Obj 0) [h0] None None = Some (Inl err, w0)) \<and>
   (\<exists>err. reduce c_cancelled ex0 [0] w0 (Obj 0) [h0] None None = Some (Inl err, w0)) \<and>
   reduce c0 ex0 [0] w0 (Obj 0) [h0] None None =
     call_async c0 ex0 [0] w0 (ReduceFunc (Obj 0)) (FutureList [h0]) None None \<and>
   (\<exists>fut w'. reduce c0 ex0 [0] w0 (Obj 0) [h0] None None = Some (Inr fut, w') \<and>
      trace w' \<noteq> trace w0 \<and> handle_outcome c0 h0 = Some success)"
proof -
  have p: "\<exists>f \<in> set [h0]. handle_outcome c_pending f = None"
    by (simp add: handle_outcome_def c_pending_def)
  have f: "(\<forall>f \<in> set [h0]. handle_outcome c_failed f \<noteq> None) \<and>
      (\<exists>f \<in> set [h0]. handle_outcome c_failed f \<noteq> Some success)"
    by (simp add: handle_outcome_def c_failed_def terminal_def)
  have x: "(\<forall>f \<in> set [h0]. handle_outcome c_cancelled f \<noteq> None) \<and>
      (\<exists>f \<in> set [h0]. handle_outcome c_cancelled f \<noteq> Some success)"
    by (simp add: handle_outcome_def c_cancelled_def terminal_def)
  have s: "\<forall>f \<in> set [h0]. handle_outcome c0 f = Some success"
    by (simp add: handle_outcome_def c0_def terminal_def)
  have "case reduce c0 ex0 [0] w0 (Obj 0) [h0] None None of
          Some (Inr fut, w') \<Rightarrow> trace w' \<noteq> [] | _ \<Rightarrow> False"
    by code_simp
  then obtain fut w' where
    r: "reduce c0 ex0 [0] w0 (Obj 0) [h0] None None = Some (Inr fut, w')" and t: "trace w' \<noteq> trace w0"
    by (auto simp add: w0_def split: option.splits prod.splits sum.splits)
  from reduce_waits_first [of "[h0]" c0 ex0 "[0]" w0 "Obj 0" None None] r t
  have "handle_outcome c0 h0 = Some success"
    by auto
  with r t reduce_waits_first [of "[h0]" c_pending ex0 "[0]" w0 "Obj 0" None None]
    reduce_waits_first [of "[h0]" c_failed ex0 "[0]" w0 "Obj 0" None None]
    reduce_waits_first [of "[h0]" c_cancelled ex0 "[0]" w0 "Obj 0" None None]
    reduce_waits_first [of "[h0]" c0 ex0 "[0]" w0 "Obj 0" None None] p f x s
  show ?thesis
    by blast
qed

section \<open>Aggregated and separate payloads\<close>

lemma map_prepare_ok:
  assumes "map_prepare c self w func data args = (Inr p, w1)"
  shows "p_callset_id p = callset_of c w \<and> p_data_strs p = map (dumps c) data \<and>
         p_agg p = (if aggregates c args data
                    then Some (agg_key_of c self w, snd (agg_data (map (dumps c) data)))
                    else None) \<and>
         (\<exists>evs. trace w1 = trace w @ evs \<and> invocations evs = [] \<and>
            data_puts evs = (if aggregates c args data
                             then [(agg_key_of c self w, concat (map (dumps c) data))] else []))"
proof (cases "module_dependencies_key args")
  case None
  show ?thesis
  proof (cases "exclude_modules args")
    case n: None
    from assms None n show ?thesis
      by (cases "aggregates c args data")
         (auto simp add: map_prepare_def serializer_def emit_def time_time_def read_local_def
           aggregates_def agg_key_of_def callset_of_def agg_data_def Let_def split_def)
  next
    case (Some ms)
    from assms None Some show ?thesis
      by (cases ms; cases "aggregates c args data")
         (auto simp add: map_prepare_def serializer_def emit_def time_time_def read_local_def
           aggregates_def agg_key_of_def callset_of_def agg_data_def Let_def split_def)
  qed
next
  case (Some key)
  show ?thesis
  proof (cases "exclude_modules args")
    case None
    from assms Some None show ?thesis
      by (cases "aggregates c args data")
         (auto simp add: map_prepare_def serializer_def emit_def time_time_def read_local_def
           aggregates_def agg_key_of_def callset_of_def agg_data_def Let_def split_def)
  next
    case s: (Some ms)
    from assms Some s show ?thesis
      by (cases ms; cases "aggregates c args data")
         (auto simp add: map_prepare_def serializer_def emit_def time_time_def read_local_def
           aggregates_def agg_key_of_def callset_of_def agg_data_def Let_def split_def)
  qed
qed

lemma run_pool_invariant:
  assumes "run_pool f tasks sched cells w = (cells', w')"
    and "length cells = length tasks"
    and "I cells w"
    and step: "\<And>i cs v r v'. i < length tasks \<Longrightarrow> length cs = length tasks \<Longrightarrow> cs ! i = None \<Longrightarrow>
           I cs v \<Longrightarrow> f v (tasks ! i) = (r, v') \<Longrightarrow> I (cs[i := Some r]) v'"
  shows "I cells' w' \<and> length cells' = length tasks"
  using assms(1-3)
proof (induction sched arbitrary: cells w)
  case Nil
  then show ?case by simp
next
  case (Cons k sched)
  show ?case
  proof (cases "k < length tasks \<and> k < length cells \<and> cells ! k = None")
    case True
    obtain r v where f: "f w (tasks ! k) = (r, v)"
      by (cases "f w (tasks ! k)")
    from Cons.prems(1) True f
    have run: "run_pool f tasks sched (cells[k := Some r]) v = (cells', w')"
      by simp
    have "I (cells[k := Some r]) v"
      using True Cons.prems(2,3) f by (intro step) simp_all
    with run show ?thesis
      using Cons.prems(2) by (intro Cons.IH) simp_all
  next
    case False
    with Cons.prems(1) have "run_pool f tasks sched cells w = (cells', w')"
      by auto
    then show ?thesis
      using Cons.prems(2,3) by (rule Cons.IH)
  qed
qed

lemma required_fields_distinct: "distinct required_fields"
  by (simp add: required_fields_def)

lemma merge_extra_meta_distinct:
  assumes "merge_extra_meta m d = Inr d'" and "distinct (map fst d)"
  shows "distinct (map fst d')"
  using assms
proof (induction m arbitrary: d)
  case Nil
  then show ?case by simp
next
  case (Cons kv m)
  obtain k v where kv: "kv = (k, v)"
    by (cases kv)
  from Cons.prems(1) kv have "merge_extra_meta m (AList.update k v d) = Inr d'"
    by (simp split: if_splits)
  moreover have "distinct (map fst (AList.update k v d))"
    using Cons.prems(2) by (rule distinct_update)
  ultimately show ?case
    by (rule Cons.IH)
qed

lemma merge_extra_meta_keeps:
  assumes "merge_extra_meta m d = Inr d'" and "k \<in> fst ` set d"
  shows "map_of d' k = map_of d k"
  using assms
proof (induction m arbitrary: d)
  case Nil
  then show ?case by simp
next
  case (Cons kv m)
  obtain k0 v where kv: "kv = (k0, v)"
    by (cases kv)
  from Cons.prems(1) kv have fresh: "k0 \<notin> fst ` set d"
    and rest: "merge_extra_meta m (AList.update k0 v d) = Inr d'"
    by (simp_all split: if_splits)
  have "k \<in> fst ` set (AList.update k0 v d)"
    using Cons.prems(2) by (simp add: dom_update)
  with rest have "map_of d' k = map_of (AList.update k0 v d) k"
    by (rule Cons.IH)
  moreover have "k \<noteq> k0"
    using fresh Cons.prems(2) by auto
  ultimately show ?case
    by (simp add: update_conv')
qed

lemma dict_update_distinct:
  assumes "distinct (map fst d)"
  shows "distinct (map fst (dict_update d ov))"
  using assms unfolding dict_update_def
  by (induction ov arbitrary: d) (auto simp add: distinct_update)

lemma dict_update_entries:
  assumes "distinct (map fst sent)" and "k \<in> fst ` set sent"
  shows "map_of (dict_update d sent) k = map_of sent k"
  using assms unfolding dict_update_def
proof (induction sent arbitrary: d)
  case Nil
  then show ?case by simp
next
  case (Cons kv sent)
  obtain k0 v where kv: "kv = (k0, v)"
    by (cases kv)
  have d: "distinct (map fst sent)" and fresh: "k0 \<notin> fst ` set sent"
    using Cons.prems(1) kv by auto
  show ?case
  proof (cases "k \<in> fst ` set sent")
    case True
    with fresh have "k \<noteq> k0"
      by auto
    with Cons.IH [OF d True, of "AList.update k0 v d"] kv show ?thesis
      by simp
  next
    case False
    with Cons.prems(2) kv have k: "k = k0"
      by auto
    have "map_of (dict_update (AList.update k0 v d) sent) k0 = map_of (AList.update k0 v d) k0"
      using fresh by (rule dict_update_other)
    then show ?thesis
      using kv k by (simp add: dict_update_def update_conv')
  qed
qed

lemma dict_update_map_of: "map_of (dict_update d ov) = map_of d ++ map_of (rev ov)"
  unfolding dict_update_def
proof (induction ov arbitrary: d)
  case Nil
  then show ?case by simp
next
  case (Cons kv ov)
  obtain k v where kv: "kv = (k, v)"
    by (cases kv)
  have "map_of (fold (\<lambda>(k, v). AList.update k v) ov (AList.update k v d)) =
      map_of (AList.update k v d) ++ map_of (rev ov)"
    by (rule Cons.IH)
  also have "\<dots> = (map_of d)(k \<mapsto> v) ++ map_of (rev ov)"
    by (simp add: update_conv')
  also have "\<dots> = map_of d ++ map_of (rev ov @ [(k, v)])"
    by (simp add: map_add_assoc [symmetric] map_add_upd)
  finally show ?case
    using kv by simp
qed

lemma dict_update_final:
  assumes "map_of a k = Some x"
  shows "map_of (case overwrite of None \<Rightarrow> a | Some ov \<Rightarrow> dict_update a ov) k =
           Some (final_field overwrite k x)"
proof (cases overwrite)
  case None
  with assms show ?thesis
    by (simp add: final_field_def)
next
  case (Some ov)
  with assms show ?thesis
    by (simp add: final_field_def dict_update_map_of map_add_def split: option.splits)
qed

lemma invoke_with_keys_effect:
  assumes "invoke_with_keys c self v func_key data_key output_key status_key cancel_key
      callset_id call_id env meta data_byte_range cached host_job_meta max_runtime overwrite
      = (r, v')"
  shows "\<exists>evs. trace v' = trace v @ evs \<and> data_puts evs = [] \<and>
           (\<forall>fut. r = Inr fut \<longrightarrow>
              (\<exists>sent. invocations evs = [sent] \<and> carries overwrite sent fut data_key data_byte_range))"
proof -
  let ?url = "fst (choose_runtime_url c self v)"
  let ?w1 = "snd (choose_runtime_url c self v)"
  let ?base = "build_arg_dict c self func_key data_key output_key status_key cancel_key
      callset_id max_runtime data_byte_range call_id cached ?url"
  let ?d = "case env of None \<Rightarrow> ?base | Some e \<Rightarrow> AList.update ''extra_env'' (PDict e) ?base"
  let ?m = "case meta of None \<Rightarrow> Inr ?d | Some m \<Rightarrow> merge_extra_meta m ?d"
  have w1: "trace ?w1 = trace v"
    by (rule choose_runtime_url_trace)
  have keys: "fst ` set ?d = reserved_keys env"
    by (rule arg_dict_env_keys)
  have dist_base: "distinct (map fst ?base)"
    by (simp only: build_arg_dict_keys required_fields_distinct)
  have dist_d: "distinct (map fst ?d)"
    using dist_base by (cases env) (simp_all add: distinct_update)
  have base_dk: "map_of ?base ''data_key'' = Some (PStr data_key)"
    and base_rng: "map_of ?base ''data_byte_range'' = Some data_byte_range"
    by (simp_all add: build_arg_dict_def)
  have d_dk: "map_of ?d ''data_key'' = Some (PStr data_key)"
    and d_rng: "map_of ?d ''data_byte_range'' = Some data_byte_range"
    using base_dk base_rng by (cases env; simp add: update_conv')+
  have in_d: "''data_key'' \<in> fst ` set ?d" "''data_byte_range'' \<in> fst ` set ?d"
    unfolding keys by (simp_all add: reserved_keys_def required_fields_def)
  show ?thesis
  proof (cases ?m)
    case (Inl err)
    with assms have "r = Inl err" and "v' = ?w1"
      by (simp_all add: invoke_with_keys_def Let_def split_def)
    with w1 show ?thesis
      by simp
  next
    case (Inr merged)
    let ?a = "AList.update ''host_submit_time'' (PTime (clock ?w1)) merged"
    let ?sent = "case overwrite of None \<Rightarrow> ?a | Some ov \<Rightarrow> dict_update ?a ov"
    have dist_m: "distinct (map fst merged)"
    proof (cases meta)
      case None
      with Inr dist_d show ?thesis by simp
    next
      case (Some m)
      with Inr have "merge_extra_meta m ?d = Inr merged"
        by simp
      then show ?thesis
        using dist_d by (rule merge_extra_meta_distinct)
    qed
    have keep: "map_of merged k = map_of ?d k" if "k \<in> fst ` set ?d" for k
    proof (cases meta)
      case None
      with Inr show ?thesis by simp
    next
      case (Some m)
      with Inr have "merge_extra_meta m ?d = Inr merged"
        by simp
      then show ?thesis
        using that by (rule merge_extra_meta_keeps)
    qed
    have dist_s: "distinct (map fst ?sent)"
      using dist_m by (cases overwrite) (simp_all add: distinct_update dict_update_distinct)
    have a_of: "map_of ?a k = map_of ?d k"
      if "k \<in> fst ` set ?d" and "k \<noteq> ''host_submit_time''" for k
      using that by (simp add: update_conv' keep)
    have "\<exists>fut. r = Inr fut \<and> (\<exists>h. fut_invoke_metadata fut = dict_update h ?sent) \<and>
        trace v' = trace v @ [Invoke ?sent]"
    proof (cases overwrite)
      case None
      with assms Inr w1 show ?thesis
        by (auto simp add: invoke_with_keys_def Let_def split_def time_time_def emit_def
            intro!: exI)
    next
      case (Some ov)
      with assms Inr w1 show ?thesis
        by (auto simp add: invoke_with_keys_def Let_def split_def time_time_def emit_def
            intro!: exI)
    qed
    then obtain fut where r: "r = Inr fut"
      and md: "\<exists>h. fut_invoke_metadata fut = dict_update h ?sent"
      and tr: "trace v' = trace v @ [Invoke ?sent]"
      by blast
    from md obtain h where h: "fut_invoke_metadata fut = dict_update h ?sent"
      by blast
    have a_dk: "map_of ?a ''data_key'' = Some (PStr data_key)"
      using a_of [OF in_d(1)] d_dk by simp
    have a_rng: "map_of ?a ''data_byte_range'' = Some data_byte_range"
      using a_of [OF in_d(2)] d_rng by simp
    have "carries overwrite ?sent fut data_key data_byte_range"
      unfolding carries_def
    proof (intro conjI ballI)
      fix k assume "k \<in> fst ` set ?sent"
      with dist_s show "map_of (fut_invoke_metadata fut) k = map_of ?sent k"
        unfolding h by (rule dict_update_entries)
    next
      show "map_of ?sent ''data_key'' = Some (final_field overwrite ''data_key'' (PStr data_key))"
        using a_dk by (rule dict_update_final)
    next
      show "map_of ?sent ''data_byte_range'' =
          Some (final_field overwrite ''data_byte_range'' data_byte_range)"
        using a_rng by (rule dict_update_final)
    qed
    with r tr show ?thesis
      by auto
  qed
qed

lemma invoke_effect:
  assumes "invoke c self args v t = (r, v')"
  shows "\<exists>evs. trace v' = trace v @ evs \<and>
           data_puts evs = (case t_agg_data_key t of
                              None \<Rightarrow> [(task_data_key c self t, t_data_str t)]
                            | Some _ \<Rightarrow> []) \<and>
           (\<forall>fut. r = Inr fut \<longrightarrow>
              (\<exists>sent \<in> set (invocations evs).
                 carries (overwrite_invoke_args args) sent fut (task_data_key c self t)
                   (range_val (t_data_byte_range t))))"
proof (cases "t_agg_data_key t")
  case None
  let ?own = "fst (create_keys c (storage_prefix self) (t_callset_id t) (t_call_id t))"
  from assms None obtain v0 h where
    call: "invoke_with_keys c self v0 (t_func_key t) ?own
       (fst (snd (create_keys c (storage_prefix self) (t_callset_id t) (t_call_id t))))
       (fst (snd (snd (create_keys c (storage_prefix self) (t_callset_id t) (t_call_id t)))))
       (snd (snd (snd (create_keys c (storage_prefix self) (t_callset_id t) (t_call_id t)))))
       (t_callset_id t) (t_call_id t) (extra_env args) (extra_meta args)
       (range_val (t_data_byte_range t)) (use_cached_runtime args) h
       (job_max_runtime self) (overwrite_invoke_args args) = (r, v')"
    and v0: "trace v0 = trace v @ [PutData ?own (t_data_str t)]"
    by (simp add: invoke_def Let_def split_def time_time_def put_data_def emit_def)
  from invoke_with_keys_effect [OF call] obtain evs where
    evs: "trace v' = trace v0 @ evs" "data_puts evs = []"
    "\<forall>fut. r = Inr fut \<longrightarrow> (\<exists>sent. invocations evs = [sent] \<and>
        carries (overwrite_invoke_args args) sent fut ?own (range_val (t_data_byte_range t)))"
    by blast
  have "trace v' = trace v @ (PutData ?own (t_data_str t) # evs)"
    using evs(1) v0 by simp
  moreover have "data_puts (PutData ?own (t_data_str t) # evs) = [(?own, t_data_str t)]"
    using evs(2) by simp
  moreover have "\<forall>fut. r = Inr fut \<longrightarrow>
      (\<exists>sent \<in> set (invocations (PutData ?own (t_data_str t) # evs)).
         carries (overwrite_invoke_args args) sent fut ?own (range_val (t_data_byte_range t)))"
    using evs(3) by auto
  ultimately show ?thesis
    using None unfolding task_data_key_def by (intro exI [of _ "PutData ?own (t_data_str t) # evs"]) simp
next
  case (Some agg_data_key)
  from assms Some obtain v0 h where
    call: "invoke_with_keys c self v0 (t_func_key t) agg_data_key
       (fst (snd (create_keys c (storage_prefix self) (t_callset_id t) (t_call_id t))))
       (fst (snd (snd (create_keys c (storage_prefix self) (t_callset_id t) (t_call_id t)))))
       (snd (snd (snd (create_keys c (storage_prefix self) (t_callset_id t) (t_call_id t)))))
       (t_callset_id t) (t_call_id t) (extra_env args) (extra_meta args)
       (range_val (t_data_byte_range t)) (use_cached_runtime args) h
       (job_max_runtime self) (overwrite_invoke_args args) = (r, v')"
    and v0: "trace v0 = trace v"
    by (simp add: invoke_def Let_def split_def time_time_def)
  from invoke_with_keys_effect [OF call] obtain evs where
    evs: "trace v' = trace v0 @ evs" "data_puts evs = []"
    "\<forall>fut. r = Inr fut \<longrightarrow> (\<exists>sent. invocations evs = [sent] \<and>
        carries (overwrite_invoke_args args) sent fut agg_data_key (range_val (t_data_byte_range t)))"
    by blast
  have "\<forall>fut. r = Inr fut \<longrightarrow>
      (\<exists>sent \<in> set (invocations evs).
         carries (overwrite_invoke_args args) sent fut agg_data_key (range_val (t_data_byte_range t)))"
    using evs(3) by auto
  with evs(1,2) v0 show ?thesis
    using Some unfolding task_data_key_def by (intro exI [of _ evs]) simp
qed

lemma pool_inv_step:
  assumes i: "i < length tasks" and len: "length cs = length tasks" and free: "cs ! i = None"
    and inv: "pool_inv c self args tasks tr0 cs v"
    and run: "invoke c self args v (tasks ! i) = (r, v')"
  shows "pool_inv c self args tasks tr0 (cs[i := Some r]) v'"
proof -
  let ?S = "\<lambda>cs. {j. j < length tasks \<and> cs ! j \<noteq> None \<and> t_agg_data_key (tasks ! j) = None}"
  let ?ov = "overwrite_invoke_args args"
  let ?key = "\<lambda>j. task_data_key c self (tasks ! j)"
  let ?rng = "\<lambda>j. range_val (t_data_byte_range (tasks ! j))"
  from inv obtain evs where
    tr: "trace v = tr0 @ evs"
    and cnt: "length (data_puts evs) = card (?S cs)"
    and ups: "\<forall>j < length tasks. cs ! j \<noteq> None \<longrightarrow> t_agg_data_key (tasks ! j) = None \<longrightarrow>
           (?key j, t_data_str (tasks ! j)) \<in> set (data_puts evs)"
    and inv_sent: "\<forall>j < length tasks. \<forall>fut. cs ! j = Some (Inr fut) \<longrightarrow>
           (\<exists>sent \<in> set (invocations evs). carries ?ov sent fut (?key j) (?rng j))"
    unfolding pool_inv_def by blast
  from invoke_effect [OF run] obtain tevs where
    ttr: "trace v' = trace v @ tevs"
    and tput: "data_puts tevs = (case t_agg_data_key (tasks ! i) of
          None \<Rightarrow> [(?key i, t_data_str (tasks ! i))] | Some _ \<Rightarrow> [])"
    and tsent: "\<forall>fut. r = Inr fut \<longrightarrow>
          (\<exists>sent \<in> set (invocations tevs). carries ?ov sent fut (?key i) (?rng i))"
    by blast
  have upd: "cs[i := Some r] ! j = (if j = i then Some r else cs ! j)" if "j < length tasks" for j
    using that len by (simp add: nth_list_update)
  have fin: "finite (?S cs)"
    by simp
  have notin: "i \<notin> ?S cs"
    using free by simp
  have S': "?S (cs[i := Some r]) =
      (if t_agg_data_key (tasks ! i) = None then insert i (?S cs) else ?S cs)"
    using i upd by (auto split: if_splits)
  have "trace v' = tr0 @ (evs @ tevs)"
    using tr ttr by simp
  moreover have "length (data_puts (evs @ tevs)) = card (?S (cs[i := Some r]))"
  proof (cases "t_agg_data_key (tasks ! i)")
    case None
    then have "card (?S (cs[i := Some r])) = Suc (card (?S cs))"
      unfolding S' using fin notin by simp
    with None tput cnt show ?thesis
      by simp
  next
    case (Some k)
    then have "card (?S (cs[i := Some r])) = card (?S cs)"
      unfolding S' by simp
    with Some tput cnt show ?thesis
      by simp
  qed
  moreover have "\<forall>j < length tasks. cs[i := Some r] ! j \<noteq> None \<longrightarrow>
      t_agg_data_key (tasks ! j) = None \<longrightarrow>
      (?key j, t_data_str (tasks ! j)) \<in> set (data_puts (evs @ tevs))"
  proof (intro allI impI)
    fix j
    assume j: "j < length tasks" and s: "cs[i := Some r] ! j \<noteq> None"
      and a: "t_agg_data_key (tasks ! j) = None"
    show "(?key j, t_data_str (tasks ! j)) \<in> set (data_puts (evs @ tevs))"
    proof (cases "j = i")
      case True
      with a tput show ?thesis
        by simp
    next
      case False
      with s j have "cs ! j \<noteq> None"
        by (simp add: upd)
      with ups j a show ?thesis
        by simp
    qed
  qed
  moreover have "\<forall>j < length tasks. \<forall>fut. cs[i := Some r] ! j = Some (Inr fut) \<longrightarrow>
      (\<exists>sent \<in> set (invocations (evs @ tevs)). carries ?ov sent fut (?key j) (?rng j))"
  proof (intro allI impI)
    fix j fut
    assume j: "j < length tasks" and s: "cs[i := Some r] ! j = Some (Inr fut)"
    show "\<exists>sent \<in> set (invocations (evs @ tevs)). carries ?ov sent fut (?key j) (?rng j)"
    proof (cases "j = i")
      case True
      with s j have "r = Inr fut"
        by (simp add: upd)
      with tsent True show ?thesis
        by auto
    next
      case False
      with s j have "cs ! j = Some (Inr fut)"
        by (simp add: upd)
      with inv_sent j show ?thesis
        by auto
    qed
  qed
  ultimately show ?thesis
    unfolding pool_inv_def by blast
qed

lemma pool_inv_run:
  assumes "run_pool (invoke c self args) tasks sched (replicate (length tasks) None) w = (cells, w')"
  shows "pool_inv c self args tasks (trace w) cells w' \<and> length cells = length tasks"
proof (rule run_pool_invariant [OF assms])
  show "length (replicate (length tasks) None) = length tasks"
    by simp
  show "pool_inv c self args tasks (trace w) (replicate (length tasks) None) w"
    by (simp add: pool_inv_def)
  fix i cs v r v'
  assume "i < length tasks" "length cs = length tasks" "cs ! i = None"
    "pool_inv c self args tasks (trace w) cs v" "invoke c self args v (tasks ! i) = (r, v')"
  then show "pool_inv c self args tasks (trace w) (cs[i := Some r]) v'"
    by (rule pool_inv_step)
qed

lemma submit_fields:
  assumes "map_prepare c self w func data args = (Inr p, w1)" and "i < length data"
  shows "t_agg_data_key (submit p i) =
           (if aggregates c args data then Some (agg_key_of c self w) else None)"
    and "t_data_str (submit p i) = dumps c (data ! i)"
    and "task_data_key c self (submit p i) =
           (if aggregates c args data then agg_key_of c self w else data_key_of c self w i)"
    and "range_val (t_data_byte_range (submit p i)) =
           (if aggregates c args data
            then range_val (Some (snd (agg_data (map (dumps c) data)) ! i)) else PNone)"
  using map_prepare_ok [OF assms(1)] assms(2)
  by (simp_all add: submit_def task_data_key_def data_key_of_def range_val_def)

text \<open>
  Claim C7, as amended. For every call to \<^verbatim>\<open>map\<close> on a non-empty input that returns
  normally, under every schedule of the pool: the payloads are aggregated into a single
  blob exactly when their total serialized size is below the threshold and the caller
  has not opted out. In that case the only data upload of the call is the blob, the
  concatenation of the payloads in order, under the aggregated key, and for each Call
  the record sent to the backend, whose entries the Call's handle keeps, carries the
  aggregated key and that Call's byte range. Otherwise there are as many data uploads as
  Calls, each Call's payload is uploaded under its own data key, and each Call's record
  carries its own data key and a null byte range. A field that the override map names
  carries the overriding value instead.
\<close>

theorem aggregation_decision:
  assumes run: "map_exec c self sched w func iterdata args = Some (Inr res, w')"
    and ne: "iterdata \<noteq> []"
  shows "\<exists>evs. trace w' = trace w @ evs \<and>
     (if aggregates c args iterdata
      then data_puts evs = [(agg_key_of c self w, concat (map (dumps c) iterdata))] \<and>
           (\<forall>i < length iterdata. \<exists>sent \<in> set (invocations evs).
               carries (overwrite_invoke_args args) sent (res ! i) (agg_key_of c self w)
                 (range_val (Some (snd (agg_data (map (dumps c) iterdata)) ! i))))
      else length (data_puts evs) = length iterdata \<and>
           (\<forall>i < length iterdata.
               (data_key_of c self w i, dumps c (iterdata ! i)) \<in> set (data_puts evs) \<and>
               (\<exists>sent \<in> set (invocations evs).
                  carries (overwrite_invoke_args args) sent (res ! i) (data_key_of c self w i) PNone)))"
proof -
  let ?N = "length iterdata"
  let ?ov = "overwrite_invoke_args args"
  from run ne have disp: "map_dispatch c self sched w func iterdata args = Some (Inr res, w')"
    by (auto simp add: map_exec_def Let_def split: option.splits if_splits)
  then obtain p w1 where prep: "map_prepare c self w func iterdata args = (Inr p, w1)"
    by (auto simp add: map_dispatch_def split: if_splits prod.splits sum.splits)
  let ?tasks = "submissions p ?N"
  have len: "length ?tasks = ?N"
    by (simp add: submissions_def)
  obtain cells w2 where pool:
    "run_pool (invoke c self args) ?tasks sched (replicate (length ?tasks) None) w1 = (cells, w2)"
    by (cases "run_pool (invoke c self args) ?tasks sched (replicate (length ?tasks) None) w1")
  from disp prep pool have get: "get_all cells = Some (Inr res)" and w': "w' = w2"
    by (auto simp add: map_dispatch_def Let_def len split: if_splits option.splits)
  from pool_inv_run [OF pool] have inv: "pool_inv c self args ?tasks (trace w1) cells w2"
    and clen: "length cells = ?N"
    by (simp_all add: len)
  from get_all_Inr [OF get] clen have cell: "cells ! i = Some (Inr (res ! i))" if "i < ?N" for i
    using that by simp
  from map_prepare_ok [OF prep] obtain pre where
    pre: "trace w1 = trace w @ pre"
    and pre_puts: "data_puts pre = (if aggregates c args iterdata
          then [(agg_key_of c self w, concat (map (dumps c) iterdata))] else [])"
    by blast
  from inv obtain evs where
    tr: "trace w2 = trace w1 @ evs"
    and cnt: "length (data_puts evs) =
        card {i. i < length ?tasks \<and> cells ! i \<noteq> None \<and> t_agg_data_key (?tasks ! i) = None}"
    and ups: "\<forall>i < length ?tasks. cells ! i \<noteq> None \<longrightarrow> t_agg_data_key (?tasks ! i) = None \<longrightarrow>
        (task_data_key c self (?tasks ! i), t_data_str (?tasks ! i)) \<in> set (data_puts evs)"
    and sent: "\<forall>i < length ?tasks. \<forall>fut. cells ! i = Some (Inr fut) \<longrightarrow>
        (\<exists>sent \<in> set (invocations evs).
           carries ?ov sent fut (task_data_key c self (?tasks ! i))
             (range_val (t_data_byte_range (?tasks ! i))))"
    unfolding pool_inv_def by blast
  have task: "?tasks ! i = submit p i" if "i < ?N" for i
    using that by (rule submissions_nth)
  have total: "trace w' = trace w @ (pre @ evs)"
    using w' tr pre by simp
  show ?thesis
  proof (cases "aggregates c args iterdata")
    case True
    have "{i. i < length ?tasks \<and> cells ! i \<noteq> None \<and> t_agg_data_key (?tasks ! i) = None} = {}"
      using True submit_fields(1) [OF prep] by (auto simp add: len task)
    then have "length (data_puts evs) = 0"
      unfolding cnt by (simp only: card.empty)
    then have "data_puts evs = []"
      by simp
    with pre_puts True have puts:
      "data_puts (pre @ evs) = [(agg_key_of c self w, concat (map (dumps c) iterdata))]"
      by simp
    have "\<forall>i < ?N. \<exists>sent \<in> set (invocations (pre @ evs)).
        carries ?ov sent (res ! i) (agg_key_of c self w)
          (range_val (Some (snd (agg_data (map (dumps c) iterdata)) ! i)))"
    proof (intro allI impI)
      fix i assume i: "i < ?N"
      from sent i cell [OF i] obtain s where "s \<in> set (invocations evs)"
        and "carries ?ov s (res ! i) (task_data_key c self (?tasks ! i))
              (range_val (t_data_byte_range (?tasks ! i)))"
        by (auto simp add: len)
      then show "\<exists>sent \<in> set (invocations (pre @ evs)).
          carries ?ov sent (res ! i) (agg_key_of c self w)
            (range_val (Some (snd (agg_data (map (dumps c) iterdata)) ! i)))"
        using True submit_fields(3,4) [OF prep i] by (auto simp add: task [OF i])
    qed
    with total puts True show ?thesis
      by (intro exI [of _ "pre @ evs"]) simp
  next
    case False
    have "{i. i < length ?tasks \<and> cells ! i \<noteq> None \<and> t_agg_data_key (?tasks ! i) = None} = {..<?N}"
      using False submit_fields(1) [OF prep] cell by (auto simp add: len task)
    then have "length (data_puts evs) = ?N"
      unfolding cnt by (simp only: card_lessThan)
    with pre_puts False have puts: "length (data_puts (pre @ evs)) = ?N"
      by simp
    have "\<forall>i < ?N. (data_key_of c self w i, dumps c (iterdata ! i)) \<in> set (data_puts (pre @ evs)) \<and>
        (\<exists>sent \<in> set (invocations (pre @ evs)).
           carries ?ov sent (res ! i) (data_key_of c self w i) PNone)"
    proof (intro allI impI conjI)
      fix i assume i: "i < ?N"
      have "cells ! i \<noteq> None"
        using cell [OF i] by simp
      moreover have "t_agg_data_key (?tasks ! i) = None"
        using False submit_fields(1) [OF prep i] by (simp add: task [OF i])
      moreover have "i < length ?tasks"
        using i by (simp add: len)
      ultimately
      have "(task_data_key c self (?tasks ! i), t_data_str (?tasks ! i)) \<in> set (data_puts evs)"
        using ups by blast
      then show "(data_key_of c self w i, dumps c (iterdata ! i)) \<in> set (data_puts (pre @ evs))"
        using False submit_fields(2,3) [OF prep i] by (simp add: task [OF i])
      from sent i cell [OF i] obtain s where "s \<in> set (invocations evs)"
        and "carries ?ov s (res ! i) (task_data_key c self (?tasks ! i))
              (range_val (t_data_byte_range (?tasks ! i)))"
        by (auto simp add: len)
      then show "\<exists>sent \<in> set (invocations (pre @ evs)).
          carries ?ov sent (res ! i) (data_key_of c self w i) PNone"
        using False submit_fields(3,4) [OF prep i] by (auto simp add: task [OF i])
    qed
    with total puts False show ?thesis
      by (intro exI [of _ "pre @ evs"]) simp
  qed
qed

text \<open>
  Two inputs below the threshold, completing in reverse order; one input of a caller
  who has opted out; and one input with an override map that names the data key.
\<close>

theorem aggregation_decision_witness:
  "(\<exists>res w'. map_exec c0 ex0 [1, 0] w0 (Obj 0) [Obj 1, Obj 2] default_map_args = Some (Inr res, w') \<and>
      data_puts (trace w') = [(''pw/cs00000/aggdata'', [7, 7, 7])] \<and>
      (\<exists>sent \<in> set (invocations (trace w')).
         map_of sent ''data_key'' = Some (PStr ''pw/cs00000/aggdata'') \<and>
         map_of sent ''data_byte_range'' = Some (PRange 1 2) \<and>
         map_of (fut_invoke_metadata (res ! 1)) ''data_byte_range'' = Some (PRange 1 2))) \<and>
   (\<exists>res w'. map_exec c0 ex0 [0] w0 (Obj 0) [Obj 2] args_separate = Some (Inr res, w') \<and>
      length (data_puts (trace w')) = 1 \<and>
      (''pw/cs00000/00000/data'', [7, 7]) \<in> set (data_puts (trace w')) \<and>
      (\<exists>sent \<in> set (invocations (trace w')).
         map_of sent ''data_key'' = Some (PStr ''pw/cs00000/00000/data'') \<and>
         map_of sent ''data_byte_range'' = Some PNone)) \<and>
   (\<exists>res w'. map_exec c0 ex0 [0] w0 (Obj 0) [Obj 1] args_override = Some (Inr res, w') \<and>
      data_puts (trace w') = [(''pw/cs00000/aggdata'', [7])] \<and>
      (\<exists>sent \<in> set (invocations (trace w')).
         map_of sent ''data_key'' = Some (PStr ''elsewhere'') \<and>
         map_of sent ''data_byte_range'' = Some (PRange 0 0)))"
proof -
  have t0: "trace w0 = []"
    by (simp add: w0_def)
  have ne: "[Obj 1, Obj 2] \<noteq> []"
    by simp
  have i1: "1 < length [Obj 1, Obj 2]"
    by simp
  have ff: "final_field (overwrite_invoke_args default_map_args) k x = x"
    "final_field (overwrite_invoke_args args_separate) k x = x" for k x
    by (simp_all add: final_field_def default_map_args_def args_separate_def)
  have fo: "final_field (overwrite_invoke_args args_override) ''data_key'' x = PStr ''elsewhere''"
    "final_field (overwrite_invoke_args args_override) ''data_byte_range'' x = x" for x
    by (simp_all add: final_field_def default_map_args_def args_override_def)
  have g: "aggregates c0 default_map_args [Obj 1, Obj 2]"
    by (simp add: aggregates_def c0_def default_map_args_def)
  have k: "agg_key_of c0 ex0 w0 = ''pw/cs00000/aggdata''"
    by code_simp
  have d: "concat (map (dumps c0) [Obj 1, Obj 2]) = [7, 7, 7]"
    "range_val (Some (snd (agg_data (map (dumps c0) [Obj 1, Obj 2])) ! 1)) = PRange 1 2"
    by code_simp+
  have "case map_exec c0 ex0 [1, 0] w0 (Obj 0) [Obj 1, Obj 2] default_map_args of
          Some (Inr res, w') \<Rightarrow> True | _ \<Rightarrow> False"
    by code_simp
  then obtain res w' where
    r: "map_exec c0 ex0 [1, 0] w0 (Obj 0) [Obj 1, Obj 2] default_map_args = Some (Inr res, w')"
    by (auto split: option.splits prod.splits sum.splits)
  from aggregation_decision [OF r ne] g obtain evs where
    e: "trace w' = trace w0 @ evs"
    "data_puts evs = [(agg_key_of c0 ex0 w0, concat (map (dumps c0) [Obj 1, Obj 2]))]"
    and s: "\<forall>i < length [Obj 1, Obj 2]. \<exists>sent \<in> set (invocations evs).
        carries (overwrite_invoke_args default_map_args) sent (res ! i) (agg_key_of c0 ex0 w0)
          (range_val (Some (snd (agg_data (map (dumps c0) [Obj 1, Obj 2])) ! i)))"
    by auto
  from s [rule_format, OF i1] obtain sent where
    sent: "sent \<in> set (invocations evs)"
    "carries (overwrite_invoke_args default_map_args) sent (res ! 1) ''pw/cs00000/aggdata'' (PRange 1 2)"
    unfolding k d by blast
  from sent(2) have c:
    "map_of sent ''data_key'' = Some (PStr ''pw/cs00000/aggdata'')"
    "map_of sent ''data_byte_range'' = Some (PRange 1 2)"
    "\<forall>k \<in> fst ` set sent. map_of (fut_invoke_metadata (res ! 1)) k = map_of sent k"
    unfolding carries_def ff by blast+
  from c(2) have "''data_byte_range'' \<in> fst ` set sent"
    by (metis map_of_eq_None_iff option.distinct(1))
  with c(3) have "map_of (fut_invoke_metadata (res ! 1)) ''data_byte_range'' =
      map_of sent ''data_byte_range''"
    by (rule bspec)
  then have m: "map_of (fut_invoke_metadata (res ! 1)) ''data_byte_range'' = Some (PRange 1 2)"
    by (simp only: c(2))
  have tw: "trace w' = evs"
    using e(1) by (simp only: t0 append_Nil)
  have dp: "data_puts (trace w') = [(''pw/cs00000/aggdata'', [7, 7, 7])]"
    using e(2) unfolding tw k d .
  have si: "sent \<in> set (invocations (trace w'))"
    using sent(1) unfolding tw .
  have first: "\<exists>res w'. map_exec c0 ex0 [1, 0] w0 (Obj 0) [Obj 1, Obj 2] default_map_args = Some (Inr res, w') \<and>
      data_puts (trace w') = [(''pw/cs00000/aggdata'', [7, 7, 7])] \<and>
      (\<exists>sent \<in> set (invocations (trace w')).
         map_of sent ''data_key'' = Some (PStr ''pw/cs00000/aggdata'') \<and>
         map_of sent ''data_byte_range'' = Some (PRange 1 2) \<and>
         map_of (fut_invoke_metadata (res ! 1)) ''data_byte_range'' = Some (PRange 1 2))"
  proof (intro exI conjI bexI)
    show "map_exec c0 ex0 [1, 0] w0 (Obj 0) [Obj 1, Obj 2] default_map_args = Some (Inr res, w')"
      by (rule r)
    show "data_puts (trace w') = [(''pw/cs00000/aggdata'', [7, 7, 7])]"
      by (rule dp)
    show "map_of sent ''data_key'' = Some (PStr ''pw/cs00000/aggdata'')"
      by (rule c(1))
    show "map_of sent ''data_byte_range'' = Some (PRange 1 2)"
      by (rule c(2))
    show "map_of (fut_invoke_metadata (res ! 1)) ''data_byte_range'' = Some (PRange 1 2)"
      by (rule m)
    show "sent \<in> set (invocations (trace w'))"
      by (rule si)
  qed
  have ne2: "[Obj 2] \<noteq> []" and i0: "0 < length [Obj 2]"
    by simp_all
  have g2: "\<not> aggregates c0 args_separate [Obj 2]"
    by (simp add: aggregates_def c0_def args_separate_def default_map_args_def)
  have k2: "data_key_of c0 ex0 w0 0 = ''pw/cs00000/00000/data''"
    by code_simp
  have d2: "dumps c0 ([Obj 2] ! 0) = [7, 7]"
    by code_simp
  have "case map_exec c0 ex0 [0] w0 (Obj 0) [Obj 2] args_separate of
          Some (Inr res, w') \<Rightarrow> True | _ \<Rightarrow> False"
    by code_simp
  then obtain res2 w2 where
    r2: "map_exec c0 ex0 [0] w0 (Obj 0) [Obj 2] args_separate = Some (Inr res2, w2)"
    by (auto split: option.splits prod.splits sum.splits)
  from aggregation_decision [OF r2 ne2] g2 obtain evs2 where
    e2: "trace w2 = trace w0 @ evs2" "length (data_puts evs2) = length [Obj 2]"
    and s2: "\<forall>i < length [Obj 2].
        (data_key_of c0 ex0 w0 i, dumps c0 ([Obj 2] ! i)) \<in> set (data_puts evs2) \<and>
        (\<exists>sent \<in> set (invocations evs2).
           carries (overwrite_invoke_args args_separate) sent (res2 ! i) (data_key_of c0 ex0 w0 i) PNone)"
    by auto
  from s2 [rule_format, OF i0] obtain sent2 where
    u2: "(''pw/cs00000/00000/data'', [7, 7]) \<in> set (data_puts evs2)"
    and sent2: "sent2 \<in> set (invocations evs2)"
    "carries (overwrite_invoke_args args_separate) sent2 (res2 ! 0) ''pw/cs00000/00000/data'' PNone"
    unfolding k2 d2 by blast
  from sent2(2) have c2:
    "map_of sent2 ''data_key'' = Some (PStr ''pw/cs00000/00000/data'')"
    "map_of sent2 ''data_byte_range'' = Some PNone"
    unfolding carries_def ff by blast+
  have tw2: "trace w2 = evs2"
    using e2(1) by (simp only: t0 append_Nil)
  have l2: "length (data_puts (trace w2)) = 1"
    using e2(2) unfolding tw2 by simp
  have second: "\<exists>res w'. map_exec c0 ex0 [0] w0 (Obj 0) [Obj 2] args_separate = Some (Inr res, w') \<and>
      length (data_puts (trace w')) = 1 \<and>
      (''pw/cs00000/00000/data'', [7, 7]) \<in> set (data_puts (trace w')) \<and>
      (\<exists>sent \<in> set (invocations (trace w')).
         map_of sent ''data_key'' = Some (PStr ''pw/cs00000/00000/data'') \<and>
         map_of sent ''data_byte_range'' = Some PNone)"
  proof (intro exI conjI bexI)
    show "map_exec c0 ex0 [0] w0 (Obj 0) [Obj 2] args_separate = Some (Inr res2, w2)"
      by (rule r2)
    show "length (data_puts (trace w2)) = 1"
      by (rule l2)
    show "(''pw/cs00000/00000/data'', [7, 7]) \<in> set (data_puts (trace w2))"
      using u2 unfolding tw2 .
    show "map_of sent2 ''data_key'' = Some (PStr ''pw/cs00000/00000/data'')"
      by (rule c2(1))
    show "map_of sent2 ''data_byte_range'' = Some PNone"
      by (rule c2(2))
    show "sent2 \<in> set (invocations (trace w2))"
      using sent2(1) unfolding tw2 .
  qed
  have ne3: "[Obj 1] \<noteq> []" and j0: "0 < length [Obj 1]"
    by simp_all
  have g3: "aggregates c0 args_override [Obj 1]"
    by (simp add: aggregates_def c0_def args_override_def default_map_args_def)
  have d3: "concat (map (dumps c0) [Obj 1]) = [7]"
    "range_val (Some (snd (agg_data (map (dumps c0) [Obj 1])) ! 0)) = PRange 0 0"
    by code_simp+
  have "case map_exec c0 ex0 [0] w0 (Obj 0) [Obj 1] args_override of
          Some (Inr res, w') \<Rightarrow> True | _ \<Rightarrow> False"
    by code_simp
  then obtain res3 w3 where
    r3: "map_exec c0 ex0 [0] w0 (Obj 0) [Obj 1] args_override = Some (Inr res3, w3)"
    by (auto split: option.splits prod.splits sum.splits)
  from aggregation_decision [OF r3 ne3] g3 obtain evs3 where
    e3: "trace w3 = trace w0 @ evs3"
    "data_puts evs3 = [(agg_key_of c0 ex0 w0, concat (map (dumps c0) [Obj 1]))]"
    and s3: "\<forall>i < length [Obj 1]. \<exists>sent \<in> set (invocations evs3).
        carries (overwrite_invoke_args args_override) sent (res3 ! i) (agg_key_of c0 ex0 w0)
          (range_val (Some (snd (agg_data (map (dumps c0) [Obj 1])) ! i)))"
    by auto
  from s3 [rule_format, OF j0] obtain sent3 where
    sent3: "sent3 \<in> set (invocations evs3)"
    "carries (overwrite_invoke_args args_override) sent3 (res3 ! 0) ''pw/cs00000/aggdata'' (PRange 0 0)"
    unfolding k d3 by blast
  from sent3(2) have c3:
    "map_of sent3 ''data_key'' = Some (PStr ''elsewhere'')"
    "map_of sent3 ''data_byte_range'' = Some (PRange 0 0)"
    unfolding carries_def fo by blast+
  have tw3: "trace w3 = evs3"
    using e3(1) by (simp only: t0 append_Nil)
  have third: "\<exists>res w'. map_exec c0 ex0 [0] w0 (Obj 0) [Obj 1] args_override = Some (Inr res, w') \<and>
      data_puts (trace w') = [(''pw/cs00000/aggdata'', [7])] \<and>
      (\<exists>sent \<in> set (invocations (trace w')).
         map_of sent ''data_key'' = Some (PStr ''elsewhere'') \<and>
         map_of sent ''data_byte_range'' = Some (PRange 0 0))"
  proof (intro exI conjI bexI)
    show "map_exec c0 ex0 [0] w0 (Obj 0) [Obj 1] args_override = Some (Inr res3, w3)"
      by (rule r3)
    show "data_puts (trace w3) = [(''pw/cs00000/aggdata'', [7])]"
      using e3(2) unfolding tw3 k d3 .
    show "map_of sent3 ''data_key'' = Some (PStr ''elsewhere'')"
      by (rule c3(1))
    show "map_of sent3 ''data_byte_range'' = Some (PRange 0 0)"
      by (rule c3(2))
    show "sent3 \<in> set (invocations (trace w3))"
      using sent3(1) unfolding tw3 .
  qed
  from first second third show ?thesis
    by blast
qed

text \<open>
  Claim C7 as stated fails when the override map names the data key: the payload is
  aggregated, yet the record sent to the backend carries the overriding key, not the
  aggregated one. It also fails on the empty input, where the size is below the
  threshold and the caller has not opted out, yet nothing is aggregated or uploaded.
\<close>

theorem aggregation_decision_override_counterexample:
  "aggregates c0 args_override [Obj 1] \<and>
   agg_key_of c0 ex0 w0 = ''pw/cs00000/aggdata'' \<and>
   map fut_call_id (projr (fst (the (map_exec c0 ex0 [0] w0 (Obj 0) [Obj 1] args_override)))) = [''00000''] \<and>
   length (invocations (trace (snd (the (map_exec c0 ex0 [0] w0 (Obj 0) [Obj 1] args_override))))) = 1 \<and>
   map_of (hd (invocations (trace (snd (the (map_exec c0 ex0 [0] w0 (Obj 0) [Obj 1] args_override))))))
     ''data_key'' = Some (PStr ''elsewhere'') \<and>
   aggregates c0 default_map_args [] \<and>
   data_puts (trace (snd (the (map_exec c0 ex0 [0] w0 (Obj 0) [] default_map_args)))) = []"
proof -
  have "aggregates c0 args_override [Obj 1]" "aggregates c0 default_map_args []"
    by (simp_all add: aggregates_def c0_def args_override_def default_map_args_def)
  moreover have "agg_key_of c0 ex0 w0 = ''pw/cs00000/aggdata''"
    by code_simp
  moreover have
    "map fut_call_id (projr (fst (the (map_exec c0 ex0 [0] w0 (Obj 0) [Obj 1] args_override)))) = [''00000'']"
    by code_simp
  moreover have
    "length (invocations (trace (snd (the (map_exec c0 ex0 [0] w0 (Obj 0) [Obj 1] args_override))))) = 1"
    by code_simp
  moreover have
    "map_of (hd (invocations (trace (snd (the (map_exec c0 ex0 [0] w0 (Obj 0) [Obj 1] args_override))))))
       ''data_key'' = Some (PStr ''elsewhere'')"
    by code_simp
  moreover have
    "data_puts (trace (snd (the (map_exec c0 ex0 [0] w0 (Obj 0) [] default_map_args)))) = []"
    by (simp add: map_exec_def w0_def)
  ultimately show ?thesis
    by blast
qed

end
